theory Spec2Isabelle
  imports Main "HOL-Library.Word"
begin

section \<open>The buffer cache: data model\<close>

text \<open>
  The repository holds three versions of the buffer cache module: \<^verbatim>\<open>bcache.c\<close>,
  \<^verbatim>\<open>x.c\<close> and a third file whose name is not known (called the third version
  below). They share the data structures and differ in the bodies of the operations.
  A function that exists in more than one version keeps its name and takes a suffix:
  \<open>_b\<close> for \<^verbatim>\<open>bcache.c\<close>, \<open>_x\<close> for \<^verbatim>\<open>x.c\<close>, \<open>_u\<close> for the third version.

  In the first sections every operation is one call that runs by itself: no other
  thread runs between its first and its last statement. A call that reaches
  \<^verbatim>\<open>pthread_cond_wait\<close> then has nobody to wake it, which is the status
  \<open>WAITING\<close>. The section on readers running concurrently splits \<^verbatim>\<open>bcache_read\<close>
  and the scheduler into their critical sections and lets threads take them in any
  order.
\<close>

type_synonym byte = "8 word"
type_synonym payload = "byte list"

definition BLOCK_SIZE :: nat where
  "BLOCK_SIZE = 4096"

text \<open>\<^verbatim>\<open>memcpy(dst, src, n)\<close>: the first \<open>n\<close> bytes of \<open>dst\<close> are replaced.\<close>

definition memcpy :: "payload \<Rightarrow> payload \<Rightarrow> nat \<Rightarrow> payload" where
  "memcpy dst src n = take n src @ drop n dst"

datatype block_state =
  BLOCK_FREE | BLOCK_READING | BLOCK_READY | BLOCK_DIRTY | BLOCK_WRITING

text \<open>
  \<^verbatim>\<open>struct block\<close>. The linked list through \<^verbatim>\<open>next\<close> is a HOL list, head first; the
  lock and the condition variable carry no data.
\<close>

record block =
  blocknum :: int
  state :: block_state
  data :: payload

subsection \<open>The disk\<close>

text \<open>
  \<^verbatim>\<open>disk.h\<close> and its implementation are not among the sources. The disk keeps its
  blocks and, for the statements about who transfers what, the list of the transfers
  it was asked for, oldest first.
\<close>

datatype disk_op = DISK_READ int | DISK_WRITE int

record disk =
  blocks :: "payload list"
  transfers :: "disk_op list"

text \<open>Modelled from the spec: \<^verbatim>\<open>disk_nblocks\<close>, the number of addressable blocks.\<close>

definition disk_nblocks :: "disk \<Rightarrow> int" where
  "disk_nblocks d = int (length (blocks d))"

text \<open>
  Modelled from the spec: \<^verbatim>\<open>disk_read\<close> fills the buffer with the fixed block size
  from the store. The spec lets a transfer fail and does not say how; here a block
  number outside the disk leaves the buffer as it was.
\<close>

definition disk_read :: "disk \<Rightarrow> int \<Rightarrow> payload \<Rightarrow> disk \<times> payload" where
  "disk_read d b buf =
     (d\<lparr>transfers := transfers d @ [DISK_READ b]\<rparr>,
      if 0 \<le> b \<and> b < disk_nblocks d then memcpy buf (blocks d ! nat b) BLOCK_SIZE else buf)"

text \<open>
  Modelled from the spec: \<^verbatim>\<open>disk_write\<close> persists the fixed block size; a block
  number outside the disk stores nothing.
\<close>

definition disk_write :: "disk \<Rightarrow> int \<Rightarrow> payload \<Rightarrow> disk" where
  "disk_write d b buf =
     d\<lparr>blocks := (if 0 \<le> b \<and> b < disk_nblocks d
                   then (blocks d)[nat b := take BLOCK_SIZE buf] else blocks d),
       transfers := transfers d @ [DISK_WRITE b]\<rparr>"

subsection \<open>The cache\<close>

text \<open>
  \<^verbatim>\<open>struct bcache\<close>. The counters are C \<^verbatim>\<open>int\<close>s: 32-bit words, read as signed by
  the accessors.
\<close>

record bcache =
  disk :: disk
  cache :: "block list"
  memory_blocks :: int
  nreads :: "32 word"
  nwrites :: "32 word"

text \<open>
  How a call ends. The C functions return \<^verbatim>\<open>void\<close>; the status names the path taken.
  \<^item> \<open>DONE\<close>: the call ran to its last statement and moved the payload between the
    caller's buffer and the block.
  \<^item> \<open>NO_MEMORY\<close>: \<^verbatim>\<open>malloc\<close> gave \<^verbatim>\<open>NULL\<close> and the call returned early.
  \<^item> \<open>NOT_READY\<close>: the read of \<^verbatim>\<open>bcache.c\<close> ran to its last statement without copying,
    the block not being \<^verbatim>\<open>BLOCK_READY\<close>.
  \<^item> \<open>WAITING\<close>: the call is suspended in \<^verbatim>\<open>pthread_cond_wait\<close>.
  \<^item> \<open>CRASHED\<close>: the call dereferenced \<^verbatim>\<open>NULL\<close>.
\<close>

datatype status = DONE | NO_MEMORY | NOT_READY | WAITING | CRASHED

text \<open>
  The result of \<^verbatim>\<open>malloc(sizeof(struct block))\<close> is an argument of each call:
  \<open>None\<close> is \<^verbatim>\<open>NULL\<close>, \<open>Some junk\<close> a fresh block whose bytes are \<open>junk\<close>.
\<close>

type_synonym malloc_result = "payload option"

section \<open>\<^verbatim>\<open>bcache.c\<close>\<close>

text \<open>
  \<^verbatim>\<open>bcache_create\<close>: fails when its own \<^verbatim>\<open>malloc\<close> or \<^verbatim>\<open>pthread_mutex_init\<close> fails
  (the two booleans say whether they succeed), and on nothing else.
\<close>

definition bcache_create_b :: "bool \<Rightarrow> bool \<Rightarrow> disk \<Rightarrow> int \<Rightarrow> bcache option" where
  "bcache_create_b malloc_ok mutex_ok d mb =
     (if \<not> malloc_ok then None
      else if \<not> mutex_ok then None
      else Some \<lparr>disk = d, cache = [], memory_blocks = mb, nreads = 0, nwrites = 0\<rparr>)"

text \<open>\<^verbatim>\<open>find_block\<close>: the position of the first block with this number that is not free.\<close>

fun find_block :: "block list \<Rightarrow> int \<Rightarrow> nat option" where
  "find_block [] b = None"
| "find_block (blk # rest) b =
     (if blocknum blk = b \<and> state blk \<noteq> BLOCK_FREE then Some 0
      else map_option Suc (find_block rest b))"

text \<open>The end of \<^verbatim>\<open>bcache_read\<close>: copy and count only when the block is ready.\<close>

definition read_copy_b :: "bcache \<Rightarrow> nat \<Rightarrow> payload \<Rightarrow> status \<times> bcache \<times> payload" where
  "read_copy_b bc i buf =
     (if state (cache bc ! i) = BLOCK_READY
      then (DONE, bc\<lparr>nreads := nreads bc + 1\<rparr>, memcpy buf (data (cache bc ! i)) BLOCK_SIZE)
      else (NOT_READY, bc, buf))"

definition bcache_read_b ::
  "malloc_result \<Rightarrow> bcache \<Rightarrow> int \<Rightarrow> payload \<Rightarrow> status \<times> bcache \<times> payload" where
  "bcache_read_b m bc b buf =
     (case find_block (cache bc) b of
        Some i \<Rightarrow> read_copy_b bc i buf
      | None \<Rightarrow>
          (case m of
             None \<Rightarrow> (NO_MEMORY, bc, buf)
           | Some junk \<Rightarrow>
               (let blk = \<lparr>blocknum = b, state = BLOCK_READING, data = junk\<rparr>;
                    (d', dat) = disk_read (disk bc) b (data blk);
                    blk = blk\<lparr>data := dat, state := BLOCK_READY\<rparr>
                in read_copy_b (bc\<lparr>disk := d', cache := blk # cache bc\<rparr>) 0 buf)))"

text \<open>The end of \<^verbatim>\<open>bcache_write\<close> (the same in \<^verbatim>\<open>x.c\<close>): store, mark dirty, count.\<close>

definition write_store_b :: "bcache \<Rightarrow> nat \<Rightarrow> payload \<Rightarrow> status \<times> bcache" where
  "write_store_b bc i src =
     (let blk = cache bc ! i;
          blk = blk\<lparr>data := memcpy (data blk) src BLOCK_SIZE, state := BLOCK_DIRTY\<rparr>
      in (DONE, bc\<lparr>cache := (cache bc)[i := blk], nwrites := nwrites bc + 1\<rparr>))"

definition bcache_write_b :: "malloc_result \<Rightarrow> bcache \<Rightarrow> int \<Rightarrow> payload \<Rightarrow> status \<times> bcache" where
  "bcache_write_b m bc b src =
     (case find_block (cache bc) b of
        Some i \<Rightarrow> write_store_b bc i src
      | None \<Rightarrow>
          (case m of
             None \<Rightarrow> (NO_MEMORY, bc)
           | Some junk \<Rightarrow>
               (let blk = \<lparr>blocknum = b, state = BLOCK_DIRTY, data = junk\<rparr>
                in write_store_b (bc\<lparr>cache := blk # cache bc\<rparr>) 0 src)))"

text \<open>
  \<^verbatim>\<open>bcache_sync\<close> (the same in \<^verbatim>\<open>x.c\<close>): the first dirty block is marked
  \<^verbatim>\<open>BLOCK_WRITING\<close> and the call waits on its condition variable, the cache lock
  still held.
\<close>

fun sync_blocks_b :: "block list \<Rightarrow> status \<times> block list" where
  "sync_blocks_b [] = (DONE, [])"
| "sync_blocks_b (blk # rest) =
     (if state blk = BLOCK_DIRTY then (WAITING, blk\<lparr>state := BLOCK_WRITING\<rparr> # rest)
      else (let (st, rest') = sync_blocks_b rest in (st, blk # rest')))"

definition bcache_sync_b :: "bcache \<Rightarrow> status \<times> bcache" where
  "bcache_sync_b bc = (let (st, bs) = sync_blocks_b (cache bc) in (st, bc\<lparr>cache := bs\<rparr>))"

text \<open>The accessors, the same in the three versions.\<close>

definition bcache_memory_blocks :: "bcache \<Rightarrow> int" where
  "bcache_memory_blocks bc = memory_blocks bc"

definition bcache_disk_blocks :: "bcache \<Rightarrow> int" where
  "bcache_disk_blocks bc = disk_nblocks (disk bc)"

definition bcache_nreads :: "bcache \<Rightarrow> int" where
  "bcache_nreads bc = sint (nreads bc)"

definition bcache_nwrites :: "bcache \<Rightarrow> int" where
  "bcache_nwrites bc = sint (nwrites bc)"

section \<open>\<^verbatim>\<open>x.c\<close>\<close>

text \<open>
  \<^verbatim>\<open>bcache_read\<close> of \<^verbatim>\<open>x.c\<close>: a new block is zeroed by \<^verbatim>\<open>memset\<close>; the caller
  itself reads the disk when it finds the block in \<^verbatim>\<open>BLOCK_READING\<close>, and waits
  while the block is in any state but \<^verbatim>\<open>BLOCK_READY\<close>.
\<close>

definition read_block_x :: "bcache \<Rightarrow> nat \<Rightarrow> int \<Rightarrow> payload \<Rightarrow> status \<times> bcache \<times> payload" where
  "read_block_x bc i b buf =
     (let blk = cache bc ! i in
      if state blk = BLOCK_READING then
        (let (d', dat) = disk_read (disk bc) b (data blk);
             blk = blk\<lparr>data := dat, state := BLOCK_READY\<rparr>
         in (DONE, bc\<lparr>disk := d', cache := (cache bc)[i := blk], nreads := nreads bc + 1\<rparr>,
             memcpy buf (data blk) BLOCK_SIZE))
      else if state blk = BLOCK_READY then
        (DONE, bc\<lparr>nreads := nreads bc + 1\<rparr>, memcpy buf (data blk) BLOCK_SIZE)
      else (WAITING, bc, buf))"

definition bcache_read_x ::
  "malloc_result \<Rightarrow> bcache \<Rightarrow> int \<Rightarrow> payload \<Rightarrow> status \<times> bcache \<times> payload" where
  "bcache_read_x m bc b buf =
     (case find_block (cache bc) b of
        Some i \<Rightarrow> read_block_x bc i b buf
      | None \<Rightarrow>
          (case m of
             None \<Rightarrow> (NO_MEMORY, bc, buf)
           | Some junk \<Rightarrow>
               (let blk = \<lparr>blocknum = b, state = BLOCK_READING,
                           data = replicate BLOCK_SIZE 0\<rparr>
                in read_block_x (bc\<lparr>cache := blk # cache bc\<rparr>) 0 b buf)))"

section \<open>The third version\<close>

text \<open>\<^verbatim>\<open>bcache_create\<close> of the third version checks only its \<^verbatim>\<open>malloc\<close>.\<close>

definition bcache_create_u :: "bool \<Rightarrow> disk \<Rightarrow> int \<Rightarrow> bcache option" where
  "bcache_create_u malloc_ok d mb =
     (if \<not> malloc_ok then None
      else Some \<lparr>disk = d, cache = [], memory_blocks = mb, nreads = 0, nwrites = 0\<rparr>)"

text \<open>The search loop of \<^verbatim>\<open>find_or_create_block\<close>: by block number alone.\<close>

fun find_blocknum :: "block list \<Rightarrow> int \<Rightarrow> nat option" where
  "find_blocknum [] b = None"
| "find_blocknum (blk # rest) b =
     (if blocknum blk = b then Some 0 else map_option Suc (find_blocknum rest b))"

text \<open>
  \<^verbatim>\<open>find_or_create_block\<close>: the position of the block, a new free block being put at
  the head when there is none; \<open>None\<close> is the \<^verbatim>\<open>NULL\<close> returned when \<^verbatim>\<open>malloc\<close> fails.
\<close>

definition find_or_create_block :: "malloc_result \<Rightarrow> bcache \<Rightarrow> int \<Rightarrow> bcache \<times> nat option" where
  "find_or_create_block m bc b =
     (case find_blocknum (cache bc) b of
        Some i \<Rightarrow> (bc, Some i)
      | None \<Rightarrow>
          (case m of
             None \<Rightarrow> (bc, None)
           | Some junk \<Rightarrow>
               (bc\<lparr>cache := \<lparr>blocknum = b, state = BLOCK_FREE, data = junk\<rparr> # cache bc\<rparr>,
                Some 0)))"

text \<open>
  \<^verbatim>\<open>bcache_read\<close> of the third version: the result of \<^verbatim>\<open>find_or_create_block\<close> is
  locked unchecked; a free or dirty block is read from the disk by the caller.
\<close>

definition bcache_read_u ::
  "malloc_result \<Rightarrow> bcache \<Rightarrow> int \<Rightarrow> payload \<Rightarrow> status \<times> bcache \<times> payload" where
  "bcache_read_u m bc b buf =
     (case find_or_create_block m bc b of
        (bc1, None) \<Rightarrow> (CRASHED, bc1, buf)
      | (bc1, Some i) \<Rightarrow>
          (let blk = cache bc1 ! i in
           if state blk = BLOCK_FREE \<or> state blk = BLOCK_DIRTY then
             (let blk = blk\<lparr>state := BLOCK_READING\<rparr>;
                  (d', dat) = disk_read (disk bc1) b (data blk);
                  blk = blk\<lparr>data := dat, state := BLOCK_READY\<rparr>
              in (DONE,
                  bc1\<lparr>disk := d', cache := (cache bc1)[i := blk], nreads := nreads bc1 + 1\<rparr>,
                  memcpy buf (data blk) BLOCK_SIZE))
           else if state blk = BLOCK_READY then
             (DONE, bc1\<lparr>nreads := nreads bc1 + 1\<rparr>, memcpy buf (data blk) BLOCK_SIZE)
           else (WAITING, bc1, buf)))"

definition bcache_write_u :: "malloc_result \<Rightarrow> bcache \<Rightarrow> int \<Rightarrow> payload \<Rightarrow> status \<times> bcache" where
  "bcache_write_u m bc b src =
     (case find_or_create_block m bc b of
        (bc1, None) \<Rightarrow> (CRASHED, bc1)
      | (bc1, Some i) \<Rightarrow>
          (let blk = cache bc1 ! i;
               blk = blk\<lparr>data := memcpy (data blk) src BLOCK_SIZE, state := BLOCK_DIRTY\<rparr>
           in (DONE, bc1\<lparr>cache := (cache bc1)[i := blk], nwrites := nwrites bc1 + 1\<rparr>)))"

text \<open>
  \<^verbatim>\<open>bcache_sync\<close> of the third version: every dirty block is written to the disk by
  the caller and becomes ready; the other blocks are left as they are.
\<close>

fun sync_blocks_u :: "disk \<Rightarrow> block list \<Rightarrow> disk \<times> block list" where
  "sync_blocks_u d [] = (d, [])"
| "sync_blocks_u d (blk # rest) =
     (if state blk = BLOCK_DIRTY then
        (let blk = blk\<lparr>state := BLOCK_WRITING\<rparr>;
             d = disk_write d (blocknum blk) (data blk);
             blk = blk\<lparr>state := BLOCK_READY\<rparr>;
             (d, rest') = sync_blocks_u d rest
         in (d, blk # rest'))
      else (let (d, rest') = sync_blocks_u d rest in (d, blk # rest')))"

definition bcache_sync_u :: "bcache \<Rightarrow> status \<times> bcache" where
  "bcache_sync_u bc =
     (let (d, bs) = sync_blocks_u (disk bc) (cache bc) in (DONE, bc\<lparr>disk := d, cache := bs\<rparr>))"

section \<open>Sequences of calls\<close>

text \<open>
  A caller issues reads, writes and syncs one after the other. Each call comes with
  the result its \<^verbatim>\<open>malloc\<close> would have. The buffer a read fills is the caller's and is
  not part of the cache.
\<close>

datatype call = READ int payload | WRITE int payload | SYNC

fun exec_b :: "malloc_result \<Rightarrow> call \<Rightarrow> bcache \<Rightarrow> status \<times> bcache" where
  "exec_b m (READ b buf) bc = (let (st, bc', buf') = bcache_read_b m bc b buf in (st, bc'))"
| "exec_b m (WRITE b src) bc = bcache_write_b m bc b src"
| "exec_b m SYNC bc = bcache_sync_b bc"

text \<open>\<^verbatim>\<open>x.c\<close> has its own read; its write and sync are those of \<^verbatim>\<open>bcache.c\<close>.\<close>

fun exec_x :: "malloc_result \<Rightarrow> call \<Rightarrow> bcache \<Rightarrow> status \<times> bcache" where
  "exec_x m (READ b buf) bc = (let (st, bc', buf') = bcache_read_x m bc b buf in (st, bc'))"
| "exec_x m (WRITE b src) bc = bcache_write_b m bc b src"
| "exec_x m SYNC bc = bcache_sync_b bc"

fun exec_u :: "malloc_result \<Rightarrow> call \<Rightarrow> bcache \<Rightarrow> status \<times> bcache" where
  "exec_u m (READ b buf) bc = (let (st, bc', buf') = bcache_read_u m bc b buf in (st, bc'))"
| "exec_u m (WRITE b src) bc = bcache_write_u m bc b src"
| "exec_u m SYNC bc = bcache_sync_u bc"

text \<open>
  The calls in order, with the status of each. A call that waits or crashes is the
  last one: nothing after it runs.
\<close>

fun run_calls ::
  "(malloc_result \<Rightarrow> call \<Rightarrow> bcache \<Rightarrow> status \<times> bcache) \<Rightarrow> (malloc_result \<times> call) list \<Rightarrow>
   bcache \<Rightarrow> (call \<times> status) list \<times> bcache" where
  "run_calls ex [] bc = ([], bc)"
| "run_calls ex ((m, c) # cs) bc =
     (let (st, bc') = ex m c bc in
      if st = WAITING \<or> st = CRASHED then ([(c, st)], bc')
      else (let (tr, bc'') = run_calls ex cs bc' in ((c, st) # tr, bc'')))"

fun is_read :: "call \<Rightarrow> bool" where
  "is_read (READ b buf) = True"
| "is_read c = False"

fun is_write :: "call \<Rightarrow> bool" where
  "is_write (WRITE b src) = True"
| "is_write c = False"

definition successful_reads :: "(call \<times> status) list \<Rightarrow> nat" where
  "successful_reads tr = length (filter (\<lambda>(c, st). is_read c \<and> st = DONE) tr)"

definition successful_writes :: "(call \<times> status) list \<Rightarrow> nat" where
  "successful_writes tr = length (filter (\<lambda>(c, st). is_write c \<and> st = DONE) tr)"

text \<open>No resident block is dirty or being written.\<close>

definition all_clean :: "bcache \<Rightarrow> bool" where
  "all_clean bc \<longleftrightarrow>
     (\<forall>blk \<in> set (cache bc). state blk \<noteq> BLOCK_DIRTY \<and> state blk \<noteq> BLOCK_WRITING)"

text \<open>Every resident block is ready or dirty: no transfer is under way.\<close>

definition settled :: "bcache \<Rightarrow> bool" where
  "settled bc \<longleftrightarrow>
     (\<forall>blk \<in> set (cache bc). state blk = BLOCK_READY \<or> state blk = BLOCK_DIRTY)"

section \<open>Concrete inputs\<close>

definition zeros :: payload where
  "zeros = replicate BLOCK_SIZE 0"

definition pattern_A :: payload where
  "pattern_A = replicate BLOCK_SIZE 0x41"

definition pattern_B :: payload where
  "pattern_B = replicate BLOCK_SIZE 0x42"

text \<open>A disk of two blocks, both zero, and the cache created on it with capacity 1.\<close>

definition disk0 :: disk where
  "disk0 = \<lparr>blocks = [zeros, zeros], transfers = []\<rparr>"

definition cache0 :: bcache where
  "cache0 = \<lparr>disk = disk0, cache = [], memory_blocks = 1, nreads = 0, nwrites = 0\<rparr>"

section \<open>Readers running concurrently\<close>

text \<open>
  Several threads call \<^verbatim>\<open>bcache_read\<close> for one block number while the scheduler
  thread runs. A step of the model is one critical section of the code, that is what a
  thread does between taking a lock and releasing it or starting to wait, or one atomic
  instruction. An interleaving is a list of actions, each naming the thread that takes
  its next step. A step that cannot be taken gives \<open>None\<close>.

  Blocks are only ever put at the head of the list, so a thread's pointer to a block is
  the block's distance from the end of the list: it stays valid when blocks are added.
\<close>

definition block_at :: "block list \<Rightarrow> nat \<Rightarrow> block" where
  "block_at bs p = bs ! (length bs - Suc p)"

definition set_block_at :: "block list \<Rightarrow> nat \<Rightarrow> block \<Rightarrow> block list" where
  "set_block_at bs p blk = bs[length bs - Suc p := blk]"

definition pointer_to :: "block list \<Rightarrow> nat \<Rightarrow> nat" where
  "pointer_to bs i = length bs - Suc i"

text \<open>
  Where a reader stands in \<^verbatim>\<open>bcache_read\<close>:
  \<^item> \<open>START\<close>: before the lookup;
  \<^item> \<open>INSERT\<close>: has found no block, has allocated and filled a new one and is about
    to link it into the list (\<^verbatim>\<open>x.c\<close>);
  \<^item> \<open>HAVE p\<close>: holds the pointer, before locking the block;
  \<^item> \<open>TRANSFER p\<close>: has marked the block as being read and is about to read the disk
    (third version);
  \<^item> \<open>FINISH p\<close>: has read the disk and is about to mark the block ready (third
    version);
  \<^item> \<open>WAIT p\<close>: inside the loop \<^verbatim>\<open>while (blk->state != BLOCK_READY)\<close>;
  \<^item> \<open>COUNT\<close>: has copied the payload, before the atomic increment;
  \<^item> \<open>RETURNED\<close>, and \<open>FAILED\<close> for the early return on \<^verbatim>\<open>NULL\<close> from \<^verbatim>\<open>malloc\<close>.
  The field \<open>sched\<close> is the scheduler's own position, read differently by the two
  versions.
\<close>

datatype pc =
  START | INSERT | HAVE nat | TRANSFER nat | FINISH nat | WAIT nat | COUNT | RETURNED | FAILED

record reader =
  pc :: pc
  buffer :: payload

record world =
  shared :: bcache
  readers :: "reader list"
  sched :: "nat option"

datatype action = READER nat malloc_result | SCHEDULER

text \<open>
  \<^verbatim>\<open>memcpy(data, blk->data, 4096)\<close> and unlock: the payload is in the reader's buffer.
\<close>

definition copy_out :: "block \<Rightarrow> reader \<Rightarrow> reader" where
  "copy_out blk r = r\<lparr>pc := COUNT, buffer := memcpy (buffer r) (data blk) BLOCK_SIZE\<rparr>"

text \<open>
  \<^verbatim>\<open>bcache_read\<close> of \<^verbatim>\<open>x.c\<close> looks the block up and inserts a new one between
  \<^verbatim>\<open>pthread_mutex_lock(&bc->cache_lock)\<close> and the unlock. But \<^verbatim>\<open>bcache_create\<close> of
  \<^verbatim>\<open>x.c\<close> initialises \<^verbatim>\<open>disk_lock\<close> only (line 67): \<^verbatim>\<open>cache_lock\<close> is the memory
  \<^verbatim>\<open>malloc\<close> returned, and locking it keeps nobody out. So the lookup and the
  insertion are two steps, and other threads can run between them.

  The steps of \<^verbatim>\<open>bcache_read\<close> in \<^verbatim>\<open>x.c\<close>: the lookup, with the allocation of a zeroed
  block in \<^verbatim>\<open>BLOCK_READING\<close> when nothing is found; the linking of that block at the
  head of the list; the section under the block's lock (initialised when the block is
  created), in which the reader itself transfers a block it finds in \<^verbatim>\<open>BLOCK_READING\<close>,
  copies a ready block, and otherwise waits; the wake-up of a waiting reader, possible
  only when the block is ready; the atomic increment.
\<close>

definition reader_step_x :: "int \<Rightarrow> malloc_result \<Rightarrow> bcache \<Rightarrow> reader \<Rightarrow> (bcache \<times> reader) option" where
  "reader_step_x b m bc r =
     (case pc r of
        START \<Rightarrow>
          (case find_block (cache bc) b of
             Some i \<Rightarrow> Some (bc, r\<lparr>pc := HAVE (pointer_to (cache bc) i)\<rparr>)
           | None \<Rightarrow>
               (case m of
                  None \<Rightarrow> Some (bc, r\<lparr>pc := FAILED\<rparr>)
                | Some junk \<Rightarrow> Some (bc, r\<lparr>pc := INSERT\<rparr>)))
      | INSERT \<Rightarrow>
          (let blk = \<lparr>blocknum = b, state = BLOCK_READING, data = replicate BLOCK_SIZE 0\<rparr>
           in Some (bc\<lparr>cache := blk # cache bc\<rparr>, r\<lparr>pc := HAVE (length (cache bc))\<rparr>))
      | HAVE p \<Rightarrow>
          (if p < length (cache bc) then
             (let blk = block_at (cache bc) p in
              if state blk = BLOCK_READING then
                (let (d', dat) = disk_read (disk bc) b (data blk);
                     blk = blk\<lparr>data := dat, state := BLOCK_READY\<rparr>
                 in Some (bc\<lparr>disk := d', cache := set_block_at (cache bc) p blk\<rparr>,
                          copy_out blk r))
              else if state blk = BLOCK_READY then Some (bc, copy_out blk r)
              else Some (bc, r\<lparr>pc := WAIT p\<rparr>))
           else None)
      | WAIT p \<Rightarrow>
          (if p < length (cache bc) \<and> state (block_at (cache bc) p) = BLOCK_READY
           then Some (bc, copy_out (block_at (cache bc) p) r) else None)
      | COUNT \<Rightarrow> Some (bc\<lparr>nreads := nreads bc + 1\<rparr>, r\<lparr>pc := RETURNED\<rparr>)
      | _ \<Rightarrow> None)"

text \<open>
  The scheduler of \<^verbatim>\<open>x.c\<close> at one block, under the block's lock: a block being read
  is read from the disk, a block being written is written to it, both become ready.
\<close>

definition service_x :: "bcache \<Rightarrow> nat \<Rightarrow> bcache" where
  "service_x bc q =
     (let blk = block_at (cache bc) q in
      if state blk = BLOCK_READING then
        (let (d', dat) = disk_read (disk bc) (blocknum blk) (data blk);
             blk = blk\<lparr>data := dat, state := BLOCK_READY\<rparr>
         in bc\<lparr>disk := d', cache := set_block_at (cache bc) q blk\<rparr>)
      else if state blk = BLOCK_WRITING then
        (let d' = disk_write (disk bc) (blocknum blk) (data blk);
             blk = blk\<lparr>state := BLOCK_READY\<rparr>
         in bc\<lparr>disk := d', cache := set_block_at (cache bc) q blk\<rparr>)
      else bc)"

text \<open>
  A pass of the scheduler of \<^verbatim>\<open>x.c\<close> walks the list from the head. \<open>sched\<close> is
  \<open>None\<close> between passes and \<open>Some n\<close> when \<open>n\<close> blocks are still to be visited, the
  next one being at pointer \<open>n - 1\<close>. The readers take their steps during a pass as at
  any other time.
\<close>

definition scheduler_step_x :: "world \<Rightarrow> world option" where
  "scheduler_step_x w =
     (case sched w of
        None \<Rightarrow> Some (w\<lparr>sched := Some (length (cache (shared w)))\<rparr>)
      | Some 0 \<Rightarrow> Some (w\<lparr>sched := None\<rparr>)
      | Some (Suc q) \<Rightarrow>
          (if q < length (cache (shared w))
           then Some (w\<lparr>shared := service_x (shared w) q, sched := Some q\<rparr>) else None))"

fun step_x :: "int \<Rightarrow> world \<Rightarrow> action \<Rightarrow> world option" where
  "step_x b w (READER i m) =
     (if i < length (readers w) then
        (case reader_step_x b m (shared w) (readers w ! i) of
           None \<Rightarrow> None
         | Some (bc, r) \<Rightarrow> Some (w\<lparr>shared := bc, readers := (readers w)[i := r]\<rparr>))
      else None)"
| "step_x b w SCHEDULER = scheduler_step_x w"

text \<open>
  The scheduler of the third version looks for the first dirty block from the head and
  marks it \<^verbatim>\<open>BLOCK_WRITING\<close> (\<open>sched\<close> becomes the pointer to it); its next step writes
  the block to the disk and marks it ready. The scheduler holds the cache lock from the
  one step to the other; the model lets readers look up in between, which only adds
  interleavings.
\<close>

fun find_dirty :: "block list \<Rightarrow> nat option" where
  "find_dirty [] = None"
| "find_dirty (blk # rest) =
     (if state blk = BLOCK_DIRTY then Some 0 else map_option Suc (find_dirty rest))"

text \<open>
  The steps of \<^verbatim>\<open>bcache_read\<close> in the third version: the lookup through
  \<^verbatim>\<open>find_or_create_block\<close>, one step under the cache lock, which \<^verbatim>\<open>bcache_create\<close> of
  this version initialises (line 68), and after which a \<^verbatim>\<open>NULL\<close> is dereferenced (no
  next state); the
  first section under the block's lock, which claims a free or dirty block, copies a ready
  one, and otherwise waits; the disk read, under the disk lock only; the second section
  under the block's lock, which marks the block ready and copies; the wake-up; the atomic
  increment.
\<close>

definition reader_step_u :: "int \<Rightarrow> malloc_result \<Rightarrow> bcache \<Rightarrow> reader \<Rightarrow> (bcache \<times> reader) option" where
  "reader_step_u b m bc r =
     (case pc r of
        START \<Rightarrow>
          (case find_or_create_block m bc b of
             (bc1, None) \<Rightarrow> None
           | (bc1, Some i) \<Rightarrow> Some (bc1, r\<lparr>pc := HAVE (pointer_to (cache bc1) i)\<rparr>))
      | HAVE p \<Rightarrow>
          (if p < length (cache bc) then
             (let blk = block_at (cache bc) p in
              if state blk = BLOCK_FREE \<or> state blk = BLOCK_DIRTY then
                Some (bc\<lparr>cache := set_block_at (cache bc) p (blk\<lparr>state := BLOCK_READING\<rparr>)\<rparr>,
                      r\<lparr>pc := TRANSFER p\<rparr>)
              else if state blk = BLOCK_READY then Some (bc, copy_out blk r)
              else Some (bc, r\<lparr>pc := WAIT p\<rparr>))
           else None)
      | TRANSFER p \<Rightarrow>
          (if p < length (cache bc) then
             (let blk = block_at (cache bc) p;
                  (d', dat) = disk_read (disk bc) b (data blk)
              in Some (bc\<lparr>disk := d', cache := set_block_at (cache bc) p (blk\<lparr>data := dat\<rparr>)\<rparr>,
                       r\<lparr>pc := FINISH p\<rparr>))
           else None)
      | FINISH p \<Rightarrow>
          (if p < length (cache bc) then
             (let blk = (block_at (cache bc) p)\<lparr>state := BLOCK_READY\<rparr>
              in Some (bc\<lparr>cache := set_block_at (cache bc) p blk\<rparr>, copy_out blk r))
           else None)
      | WAIT p \<Rightarrow>
          (if p < length (cache bc) \<and> state (block_at (cache bc) p) = BLOCK_READY
           then Some (bc, copy_out (block_at (cache bc) p) r) else None)
      | COUNT \<Rightarrow> Some (bc\<lparr>nreads := nreads bc + 1\<rparr>, r\<lparr>pc := RETURNED\<rparr>)
      | _ \<Rightarrow> None)"

definition scheduler_step_u :: "world \<Rightarrow> world option" where
  "scheduler_step_u w =
     (let bc = shared w in
      case sched w of
        None \<Rightarrow>
          (case find_dirty (cache bc) of
             None \<Rightarrow> Some w
           | Some i \<Rightarrow>
               (let q = pointer_to (cache bc) i;
                    blk = (block_at (cache bc) q)\<lparr>state := BLOCK_WRITING\<rparr>
                in Some (w\<lparr>shared := bc\<lparr>cache := set_block_at (cache bc) q blk\<rparr>,
                           sched := Some q\<rparr>)))
      | Some q \<Rightarrow>
          (if q < length (cache bc) then
             (let blk = block_at (cache bc) q;
                  d' = disk_write (disk bc) (blocknum blk) (data blk);
                  blk = blk\<lparr>state := BLOCK_READY\<rparr>
              in Some (w\<lparr>shared := bc\<lparr>disk := d', cache := set_block_at (cache bc) q blk\<rparr>,
                         sched := None\<rparr>))
           else None))"

fun step_u :: "int \<Rightarrow> world \<Rightarrow> action \<Rightarrow> world option" where
  "step_u b w (READER i m) =
     (if i < length (readers w) then
        (case reader_step_u b m (shared w) (readers w ! i) of
           None \<Rightarrow> None
         | Some (bc, r) \<Rightarrow> Some (w\<lparr>shared := bc, readers := (readers w)[i := r]\<rparr>))
      else None)"
| "step_u b w SCHEDULER = scheduler_step_u w"

text \<open>
  An interleaving is run from the left and stops with \<open>None\<close> at a step that cannot be
  taken.
\<close>

fun run_actions :: "(world \<Rightarrow> action \<Rightarrow> world option) \<Rightarrow> world \<Rightarrow> action list \<Rightarrow> world option" where
  "run_actions stp w [] = Some w"
| "run_actions stp w (a # as) =
     (case stp w a of None \<Rightarrow> None | Some w' \<Rightarrow> run_actions stp w' as)"

text \<open>
  All readers at the start of their call, each with its own buffer; the scheduler
  between two passes.
\<close>

definition start_world :: "bcache \<Rightarrow> payload list \<Rightarrow> world" where
  "start_world bc bufs =
     \<lparr>shared = bc, readers = map (\<lambda>buf. \<lparr>pc = START, buffer = buf\<rparr>) bufs, sched = None\<rparr>"

text \<open>
  How often the disk was asked to read block \<open>b\<close>.
\<close>

definition reads_of :: "int \<Rightarrow> disk \<Rightarrow> nat" where
  "reads_of b d = length (filter (\<lambda>t. t = DISK_READ b) (transfers d))"

text \<open>
  A reader has its payload.
\<close>

definition finished :: "reader \<Rightarrow> bool" where
  "finished r \<longleftrightarrow> pc r = COUNT \<or> pc r = RETURNED"

text \<open>
  An upper bound on the steps a reader of the third version still has to take
  (\<open>INSERT\<close> is not a place of the third version).
\<close>

fun remaining :: "pc \<Rightarrow> nat" where
  "remaining START = 6"
| "remaining INSERT = 0"
| "remaining (HAVE p) = 5"
| "remaining (TRANSFER p) = 4"
| "remaining (FINISH p) = 3"
| "remaining (WAIT p) = 2"
| "remaining COUNT = 1"
| "remaining RETURNED = 0"
| "remaining FAILED = 0"

definition work_left :: "world \<Rightarrow> nat" where
  "work_left w = sum_list (map (\<lambda>r. remaining (pc r)) (readers w))"

fun is_reader_action :: "action \<Rightarrow> bool" where
  "is_reader_action (READER i m) = True"
| "is_reader_action SCHEDULER = False"

text \<open>
  No deadlock: every reader has returned, or can take its next step, or there is a
  reader in the middle of a transfer that can take its next step.
\<close>

definition live :: "(world \<Rightarrow> action \<Rightarrow> world option) \<Rightarrow> world \<Rightarrow> bool" where
  "live stp w \<longleftrightarrow>
     (\<forall>i < length (readers w).
        pc (readers w ! i) = RETURNED \<or> pc (readers w ! i) = FAILED
        \<or> (\<exists>m. stp w (READER i m) \<noteq> None)
        \<or> (\<exists>j < length (readers w). \<exists>p.
              (pc (readers w ! j) = TRANSFER p \<or> pc (readers w ! j) = FINISH p)
              \<and> (\<exists>m. stp w (READER j m) \<noteq> None)))"

text \<open>
  What is claimed of a state \<open>w\<close> reached by the interleaving \<open>acts\<close> from the cache
  \<open>bc\<close> with reader buffers \<open>bufs\<close>: the disk was asked for block \<open>b\<close> at most once
  more than before, and exactly once more as soon as one reader has its payload; the
  readers that have their payload all got the same one, which a read of block \<open>b\<close> of the
  disk gives; there is no deadlock; and the readers took at most six steps each.
\<close>

definition served ::
  "(world \<Rightarrow> action \<Rightarrow> world option) \<Rightarrow> int \<Rightarrow> bcache \<Rightarrow> payload list \<Rightarrow> action list \<Rightarrow> world \<Rightarrow> bool" where
  "served stp b bc bufs acts w \<longleftrightarrow>
     length (readers w) = length bufs
     \<and> reads_of b (disk (shared w)) \<le> reads_of b (disk bc) + 1
     \<and> ((\<exists>i < length bufs. finished (readers w ! i))
          \<longrightarrow> reads_of b (disk (shared w)) = reads_of b (disk bc) + 1)
     \<and> (\<exists>dat. (\<exists>z. dat = snd (disk_read (disk bc) b z))
          \<and> (\<forall>i < length bufs. finished (readers w ! i)
                \<longrightarrow> buffer (readers w ! i) = memcpy (bufs ! i) dat BLOCK_SIZE))
     \<and> live stp w
     \<and> length (filter is_reader_action acts) + work_left w \<le> 6 * length bufs"

text \<open>
  The invariant of the interleavings of the third version goes through five phases: the
  block for \<open>b\<close> is absent; it is there and free; one reader has claimed it; that reader
  has read the disk; the block is ready. \<open>L\<close> is the number of blocks at the start, so
  the block created for \<open>b\<close> is at pointer \<open>L\<close>; \<open>k\<close> is the number of reads of
  \<open>b\<close> the disk had seen at the start, \<open>d0\<close> the disk at the start.
\<close>

datatype phase = ABSENT | FRESH | CLAIMED nat | FILLED nat payload | VALID payload

definition before_copy :: "nat \<Rightarrow> reader \<Rightarrow> bool" where
  "before_copy L r \<longleftrightarrow> pc r = START \<or> pc r = HAVE L \<or> pc r = WAIT L"

definition reader_ok :: "nat \<Rightarrow> payload list \<Rightarrow> phase \<Rightarrow> nat \<Rightarrow> reader \<Rightarrow> bool" where
  "reader_ok L bufs ph i r =
     (case ph of
        ABSENT \<Rightarrow> pc r = START \<and> buffer r = bufs ! i
      | FRESH \<Rightarrow> (pc r = START \<or> pc r = HAVE L) \<and> buffer r = bufs ! i
      | CLAIMED ow \<Rightarrow>
          (if i = ow then pc r = TRANSFER L else before_copy L r) \<and> buffer r = bufs ! i
      | FILLED ow dat \<Rightarrow>
          (if i = ow then pc r = FINISH L else before_copy L r) \<and> buffer r = bufs ! i
      | VALID dat \<Rightarrow>
          (before_copy L r \<and> buffer r = bufs ! i)
          \<or> (finished r \<and> buffer r = memcpy (bufs ! i) dat BLOCK_SIZE))"

definition head_ok :: "int \<Rightarrow> nat \<Rightarrow> nat \<Rightarrow> disk \<Rightarrow> nat \<Rightarrow> phase \<Rightarrow> bcache \<Rightarrow> bool" where
  "head_ok b L k d0 n ph bc =
     (case ph of
        ABSENT \<Rightarrow> length (cache bc) = L \<and> reads_of b (disk bc) = k
      | FRESH \<Rightarrow>
          length (cache bc) = Suc L \<and> blocknum (block_at (cache bc) L) = b
          \<and> state (block_at (cache bc) L) = BLOCK_FREE \<and> reads_of b (disk bc) = k
      | CLAIMED ow \<Rightarrow>
          length (cache bc) = Suc L \<and> blocknum (block_at (cache bc) L) = b
          \<and> state (block_at (cache bc) L) = BLOCK_READING \<and> reads_of b (disk bc) = k
          \<and> ow < n
      | FILLED ow dat \<Rightarrow>
          length (cache bc) = Suc L \<and> blocknum (block_at (cache bc) L) = b
          \<and> state (block_at (cache bc) L) = BLOCK_READING \<and> reads_of b (disk bc) = Suc k
          \<and> ow < n \<and> data (block_at (cache bc) L) = dat
          \<and> (\<exists>z. dat = snd (disk_read d0 b z))
      | VALID dat \<Rightarrow>
          length (cache bc) = Suc L \<and> blocknum (block_at (cache bc) L) = b
          \<and> state (block_at (cache bc) L) = BLOCK_READY \<and> reads_of b (disk bc) = Suc k
          \<and> data (block_at (cache bc) L) = dat
          \<and> (\<exists>z. dat = snd (disk_read d0 b z)))"

definition inv_u :: "int \<Rightarrow> nat \<Rightarrow> nat \<Rightarrow> disk \<Rightarrow> payload list \<Rightarrow> phase \<Rightarrow> world \<Rightarrow> bool" where
  "inv_u b L k d0 bufs ph w \<longleftrightarrow>
     length (readers w) = length bufs
     \<and> (\<forall>z. snd (disk_read (disk (shared w)) b z) = snd (disk_read d0 b z))
     \<and> (\<forall>q. sched w = Some q \<longrightarrow> q < L)
     \<and> L \<le> length (cache (shared w))
     \<and> (\<forall>p < L. blocknum (block_at (cache (shared w)) p) \<noteq> b)
     \<and> head_ok b L k d0 (length bufs) ph (shared w)
     \<and> (\<forall>i < length bufs. reader_ok L bufs ph i (readers w ! i))"

text \<open>
  Two interleavings of three readers of block 1. In the first, of \<^verbatim>\<open>x.c\<close>, the three
  readers look the block up before any of them has linked its new block. In the second,
  of the third version, the scheduler runs too; reader 1 claims the block and the other
  two wait for it.
\<close>

definition schedule_x :: "action list" where
  "schedule_x =
     [READER 0 (Some zeros), READER 1 (Some zeros), READER 2 (Some zeros),
      READER 0 None, READER 1 None, READER 2 None,
      READER 0 None, READER 1 None, READER 2 None,
      READER 0 None, READER 1 None, READER 2 None]"

definition schedule_u :: "action list" where
  "schedule_u =
     [READER 0 (Some pattern_B), READER 1 None, READER 2 None, READER 1 None, READER 0 None,
      SCHEDULER, READER 1 None, READER 2 None, READER 1 None, READER 0 None, READER 2 None,
      READER 0 None, READER 1 None, READER 2 None]"

definition outcome :: "world option \<Rightarrow> (pc list \<times> payload list \<times> disk_op list) option" where
  "outcome r = map_option (\<lambda>w. (map pc (readers w), map buffer (readers w), transfers (disk (shared w)))) r"

section \<open>Facts about the searches\<close>

lemma find_block_Some:
  "find_block bs b = Some i \<Longrightarrow>
   i < length bs \<and> blocknum (bs ! i) = b \<and> state (bs ! i) \<noteq> BLOCK_FREE"
  by (induction bs arbitrary: i) (auto split: if_splits)

lemma find_blocknum_Some:
  "find_blocknum bs b = Some i \<Longrightarrow> i < length bs \<and> blocknum (bs ! i) = b"
  by (induction bs arbitrary: i) (auto split: if_splits)

lemma filter_other_update:
  "i < length bs \<Longrightarrow> blocknum (bs ! i) = b \<Longrightarrow> blocknum blk = b \<Longrightarrow>
   filter (\<lambda>x. blocknum x \<noteq> b) (bs[i := blk]) = filter (\<lambda>x. blocknum x \<noteq> b) bs"
  by (induction bs arbitrary: i) (auto split: nat.splits)

lemma memcpy_whole: "length src = n \<Longrightarrow> take n (memcpy dst src n) = src"
  by (simp add: memcpy_def)

lemma cache0_created: "bcache_create_b True True disk0 1 = Some cache0"
  by (simp add: bcache_create_b_def cache0_def)

section \<open>Creating a cache\<close>

text \<open>
  C3, as the code falsifies it: a capacity below 1 is accepted. \<^verbatim>\<open>bcache.c\<close> creates
  a cache of capacity 0 and the third version one of capacity -3.
\<close>

theorem bcache_create_capacity_below_one:
  "bcache_create_b True True disk0 0 =
     Some \<lparr>disk = disk0, cache = [], memory_blocks = 0, nreads = 0, nwrites = 0\<rparr>
   \<and> bcache_create_u True disk0 (- 3) =
     Some \<lparr>disk = disk0, cache = [], memory_blocks = - 3, nreads = 0, nwrites = 0\<rparr>"
  by (simp add: bcache_create_b_def bcache_create_u_def)

text \<open>
  C3, amended: \<^verbatim>\<open>bcache_create\<close> does not look at the capacity. It fails exactly
  when its own allocation fails (in \<^verbatim>\<open>bcache.c\<close> also when the lock cannot be
  initialised); otherwise, for every capacity, it returns a cache with no resident
  block, the capacity recorded as given, and both counters 0.
\<close>

theorem bcache_create_ignores_capacity:
  "((bcache_create_b malloc_ok mutex_ok d mb \<noteq> None) = (malloc_ok \<and> mutex_ok))
   \<and> ((bcache_create_u malloc_ok d mb \<noteq> None) = malloc_ok)
   \<and> (\<exists>bc. bcache_create_b True True d mb = Some bc \<and> cache bc = []
         \<and> bcache_memory_blocks bc = mb \<and> bcache_nreads bc = 0 \<and> bcache_nwrites bc = 0)
   \<and> (\<exists>bc. bcache_create_u True d mb = Some bc \<and> cache bc = []
         \<and> bcache_memory_blocks bc = mb \<and> bcache_nreads bc = 0 \<and> bcache_nwrites bc = 0)"
  by (simp add: bcache_create_b_def bcache_create_u_def bcache_memory_blocks_def
      bcache_nreads_def bcache_nwrites_def)

section \<open>Block numbers beyond the disk\<close>

lemmas example_defs =
  zeros_def pattern_A_def pattern_B_def disk0_def cache0_def BLOCK_SIZE_def memcpy_def

lemma bcache_write_b_stores:
  assumes len: "length p = BLOCK_SIZE"
  shows "fst (bcache_write_b (Some junk) bc b p) = DONE
   \<and> nwrites (snd (bcache_write_b (Some junk) bc b p)) = nwrites bc + 1
   \<and> (\<exists>blk \<in> set (cache (snd (bcache_write_b (Some junk) bc b p))).
        blocknum blk = b \<and> state blk = BLOCK_DIRTY \<and> take BLOCK_SIZE (data blk) = p)"
proof (cases "find_block (cache bc) b")
  case None
  with len show ?thesis
    by (simp add: bcache_write_b_def write_store_b_def memcpy_whole)
next
  case (Some i)
  then have i: "i < length (cache bc)" "blocknum (cache bc ! i) = b"
    using find_block_Some by blast+
  let ?blk = "(cache bc ! i)\<lparr>data := memcpy (data (cache bc ! i)) p BLOCK_SIZE,
                               state := BLOCK_DIRTY\<rparr>"
  have "?blk \<in> set ((cache bc)[i := ?blk])"
    using i by (simp add: set_update_memI)
  with Some i len show ?thesis
    by (auto simp: bcache_write_b_def write_store_b_def Let_def memcpy_whole
        intro!: bexI [of _ ?blk])
qed

lemma bcache_write_u_stores:
  assumes len: "length p = BLOCK_SIZE"
  shows "fst (bcache_write_u (Some junk) bc b p) = DONE
   \<and> nwrites (snd (bcache_write_u (Some junk) bc b p)) = nwrites bc + 1
   \<and> (\<exists>blk \<in> set (cache (snd (bcache_write_u (Some junk) bc b p))).
        blocknum blk = b \<and> state blk = BLOCK_DIRTY \<and> take BLOCK_SIZE (data blk) = p)"
proof (cases "find_blocknum (cache bc) b")
  case None
  with len show ?thesis
    by (simp add: bcache_write_u_def find_or_create_block_def memcpy_whole)
next
  case (Some i)
  then have i: "i < length (cache bc)" "blocknum (cache bc ! i) = b"
    using find_blocknum_Some by blast+
  let ?blk = "(cache bc ! i)\<lparr>data := memcpy (data (cache bc ! i)) p BLOCK_SIZE,
                               state := BLOCK_DIRTY\<rparr>"
  have "?blk \<in> set ((cache bc)[i := ?blk])"
    using i by (simp add: set_update_memI)
  with Some i len show ?thesis
    by (auto simp: bcache_write_u_def find_or_create_block_def Let_def memcpy_whole
        intro!: bexI [of _ ?blk])
qed

lemma bcache_read_b_asks_disk:
  "find_block (cache bc) b = None \<Longrightarrow>
   transfers (disk (fst (snd (bcache_read_b (Some junk) bc b buf))))
     = transfers (disk bc) @ [DISK_READ b]"
  by (simp add: bcache_read_b_def read_copy_b_def disk_read_def Let_def split: prod.splits)

text \<open>
  C2, as the code falsifies it: the disk of \<open>cache0\<close> has two blocks, and a write to
  block 2 is not rejected. In \<^verbatim>\<open>bcache.c\<close> and in the third version it ends as any
  write does, with a new dirty entry for block 2 and the write counter at 1.
\<close>

theorem write_beyond_disk_accepted:
  "bcache_disk_blocks cache0 = 2
   \<and> bcache_write_b (Some zeros) cache0 2 pattern_A =
     (DONE, \<lparr>disk = disk0,
             cache = [\<lparr>blocknum = 2, state = BLOCK_DIRTY, data = pattern_A\<rparr>],
             memory_blocks = 1, nreads = 0, nwrites = 1\<rparr>)
   \<and> bcache_write_u (Some zeros) cache0 2 pattern_A =
     (DONE, \<lparr>disk = disk0,
             cache = [\<lparr>blocknum = 2, state = BLOCK_DIRTY, data = pattern_A\<rparr>],
             memory_blocks = 1, nreads = 0, nwrites = 1\<rparr>)"
  by (simp add: bcache_write_b_def write_store_b_def bcache_write_u_def
      find_or_create_block_def bcache_disk_blocks_def disk_nblocks_def example_defs)

text \<open>
  C2, amended: neither read nor write compares the block number with the block count
  of the disk, and no call ends with an out-of-range error. For every block number
  \<open>b\<close>, also one at or beyond the block count, a write of a 4096-byte payload whose
  allocation succeeds is done: an entry for \<open>b\<close> is dirty and holds the payload, and the
  write counter is one higher. A read of a block number that is not resident asks the
  disk for that block number, whatever it is.
\<close>

theorem block_number_not_checked:
  "(length p = BLOCK_SIZE \<longrightarrow>
      fst (bcache_write_b (Some junk) bc b p) = DONE
      \<and> nwrites (snd (bcache_write_b (Some junk) bc b p)) = nwrites bc + 1
      \<and> (\<exists>blk \<in> set (cache (snd (bcache_write_b (Some junk) bc b p))).
           blocknum blk = b \<and> state blk = BLOCK_DIRTY \<and> take BLOCK_SIZE (data blk) = p))
   \<and> (length p = BLOCK_SIZE \<longrightarrow>
      fst (bcache_write_u (Some junk) bc b p) = DONE
      \<and> nwrites (snd (bcache_write_u (Some junk) bc b p)) = nwrites bc + 1
      \<and> (\<exists>blk \<in> set (cache (snd (bcache_write_u (Some junk) bc b p))).
           blocknum blk = b \<and> state blk = BLOCK_DIRTY \<and> take BLOCK_SIZE (data blk) = p))
   \<and> (find_block (cache bc) b = None \<longrightarrow>
      transfers (disk (fst (snd (bcache_read_b (Some junk) bc b buf))))
        = transfers (disk bc) @ [DISK_READ b])"
  using bcache_write_b_stores [of p junk bc b] bcache_write_u_stores [of p junk bc b]
    bcache_read_b_asks_disk [of bc b junk buf]
  by blast

text \<open>
  The amended C2 at block 2 of a two-block disk: the payload has 4096 bytes and block 2
  is not resident, so both hypotheses hold there.
\<close>

theorem block_number_not_checked_witness:
  "bcache_disk_blocks cache0 \<le> 2
   \<and> length pattern_A = BLOCK_SIZE
   \<and> find_block (cache cache0) 2 = None
   \<and> fst (bcache_write_b (Some zeros) cache0 2 pattern_A) = DONE
   \<and> nwrites (snd (bcache_write_b (Some zeros) cache0 2 pattern_A)) = 1
   \<and> fst (bcache_write_u (Some zeros) cache0 2 pattern_A) = DONE
   \<and> nwrites (snd (bcache_write_u (Some zeros) cache0 2 pattern_A)) = 1
   \<and> transfers (disk (fst (snd (bcache_read_b (Some zeros) cache0 2 zeros)))) = [DISK_READ 2]"
proof -
  have h: "length pattern_A = BLOCK_SIZE" "find_block (cache cache0) 2 = None"
    "bcache_disk_blocks cache0 \<le> 2" "nwrites cache0 = 0" "transfers (disk cache0) = []"
    by (simp_all add: bcache_disk_blocks_def disk_nblocks_def example_defs)
  show ?thesis
    using h block_number_not_checked [of pattern_A zeros cache0 2 zeros]
    by simp
qed

section \<open>Allocation failure\<close>

text \<open>
  C9: when the block is not resident and \<^verbatim>\<open>malloc\<close> fails, the read and the write of
  \<^verbatim>\<open>bcache.c\<close> and the read of \<^verbatim>\<open>x.c\<close> return with the cache as it was: no entry
  added, none changed, both counters as before; the caller's buffer is untouched too.
\<close>

theorem allocation_failure_changes_nothing:
  "find_block (cache bc) b = None \<Longrightarrow>
   bcache_read_b None bc b buf = (NO_MEMORY, bc, buf)
   \<and> bcache_write_b None bc b p = (NO_MEMORY, bc)
   \<and> bcache_read_x None bc b buf = (NO_MEMORY, bc, buf)"
  by (simp add: bcache_read_b_def bcache_write_b_def bcache_read_x_def)

text \<open>C9 on the empty cache \<open>cache0\<close>, where block 0 is not resident.\<close>

theorem allocation_failure_changes_nothing_witness:
  "find_block (cache cache0) 0 = None
   \<and> bcache_read_b None cache0 0 zeros = (NO_MEMORY, cache0, zeros)
   \<and> bcache_write_b None cache0 0 pattern_A = (NO_MEMORY, cache0)
   \<and> bcache_read_x None cache0 0 zeros = (NO_MEMORY, cache0, zeros)"
proof -
  have h: "find_block (cache cache0) 0 = None"
    by (simp add: cache0_def)
  show ?thesis
    using h allocation_failure_changes_nothing [OF h, of zeros pattern_A]
    by simp
qed

section \<open>What a write leaves alone\<close>

lemma bcache_write_b_frame:
  "filter (\<lambda>blk. blocknum blk \<noteq> b) (cache (snd (bcache_write_b m bc b p)))
     = filter (\<lambda>blk. blocknum blk \<noteq> b) (cache bc)
   \<and> disk (snd (bcache_write_b m bc b p)) = disk bc
   \<and> bcache_memory_blocks (snd (bcache_write_b m bc b p)) = bcache_memory_blocks bc"
  by (auto simp: bcache_write_b_def write_store_b_def bcache_memory_blocks_def Let_def
      filter_other_update dest!: find_block_Some split: option.splits)

lemma bcache_write_u_frame:
  "filter (\<lambda>blk. blocknum blk \<noteq> b) (cache (snd (bcache_write_u m bc b p)))
     = filter (\<lambda>blk. blocknum blk \<noteq> b) (cache bc)
   \<and> disk (snd (bcache_write_u m bc b p)) = disk bc
   \<and> bcache_memory_blocks (snd (bcache_write_u m bc b p)) = bcache_memory_blocks bc"
  by (auto simp: bcache_write_u_def find_or_create_block_def bcache_memory_blocks_def Let_def
      filter_other_update dest!: find_blocknum_Some split: option.splits)

text \<open>
  C10: a write to block \<open>b\<close>, in \<^verbatim>\<open>bcache.c\<close> and in the third version, whatever its
  allocation gives: the entries of every other block number are the same entries in the
  same order before and after (number, state and payload), the disk is untouched, its
  list of transfers included, and \<^verbatim>\<open>bcache_memory_blocks\<close> returns what it returned
  before.
\<close>

theorem write_frame:
  "filter (\<lambda>blk. blocknum blk \<noteq> b) (cache (snd (bcache_write_b m bc b p)))
     = filter (\<lambda>blk. blocknum blk \<noteq> b) (cache bc)
   \<and> disk (snd (bcache_write_b m bc b p)) = disk bc
   \<and> bcache_memory_blocks (snd (bcache_write_b m bc b p)) = bcache_memory_blocks bc
   \<and> filter (\<lambda>blk. blocknum blk \<noteq> b) (cache (snd (bcache_write_u m bc b p)))
     = filter (\<lambda>blk. blocknum blk \<noteq> b) (cache bc)
   \<and> disk (snd (bcache_write_u m bc b p)) = disk bc
   \<and> bcache_memory_blocks (snd (bcache_write_u m bc b p)) = bcache_memory_blocks bc"
  using bcache_write_b_frame [of b m bc p] bcache_write_u_frame [of b m bc p]
  by simp

text \<open>
  C10 on a cache holding a ready block 1: after a write to block 0 the entry of block 1
  is as before.
\<close>

theorem write_frame_witness:
  "filter (\<lambda>blk. blocknum blk \<noteq> 0)
     (cache (snd (bcache_write_b (Some zeros)
        (cache0\<lparr>cache := [\<lparr>blocknum = 1, state = BLOCK_READY, data = pattern_B\<rparr>]\<rparr>)
        0 pattern_A)))
   = [\<lparr>blocknum = 1, state = BLOCK_READY, data = pattern_B\<rparr>]
   \<and> length (cache (snd (bcache_write_b (Some zeros)
        (cache0\<lparr>cache := [\<lparr>blocknum = 1, state = BLOCK_READY, data = pattern_B\<rparr>]\<rparr>)
        0 pattern_A))) = 2"
proof -
  have "length (cache (snd (bcache_write_b (Some zeros)
        (cache0\<lparr>cache := [\<lparr>blocknum = 1, state = BLOCK_READY, data = pattern_B\<rparr>]\<rparr>)
        0 pattern_A))) = 2"
    by (simp add: bcache_write_b_def write_store_b_def cache0_def)
  then show ?thesis
    using write_frame [of 0 "Some zeros"
        "cache0\<lparr>cache := [\<lparr>blocknum = 1, state = BLOCK_READY, data = pattern_B\<rparr>]\<rparr>"
        pattern_A]
    by simp
qed

section \<open>Reading back what was written\<close>

text \<open>
  C1 at a concrete input. The disk holds zeros in block 0. \<open>pattern_A\<close> is written to
  block 0 and block 0 is read at once into a buffer holding \<open>pattern_B\<close>.
  \<^item> The third version finds the block dirty, reads it from the disk over the written
    payload and hands the caller the zeros of the disk.
  \<^item> \<^verbatim>\<open>bcache.c\<close> finds the block dirty, copies nothing and counts nothing: the buffer
    still holds \<open>pattern_B\<close>.
  In neither is the payload read back the payload written.
\<close>

theorem write_then_read_loses_payload:
  "bcache_write_u (Some pattern_B) cache0 0 pattern_A =
     (DONE, \<lparr>disk = disk0,
             cache = [\<lparr>blocknum = 0, state = BLOCK_DIRTY, data = pattern_A\<rparr>],
             memory_blocks = 1, nreads = 0, nwrites = 1\<rparr>)
   \<and> bcache_read_u None
       \<lparr>disk = disk0, cache = [\<lparr>blocknum = 0, state = BLOCK_DIRTY, data = pattern_A\<rparr>],
        memory_blocks = 1, nreads = 0, nwrites = 1\<rparr> 0 pattern_B =
     (DONE, \<lparr>disk = disk0\<lparr>transfers := [DISK_READ 0]\<rparr>,
             cache = [\<lparr>blocknum = 0, state = BLOCK_READY, data = zeros\<rparr>],
             memory_blocks = 1, nreads = 1, nwrites = 1\<rparr>, zeros)
   \<and> zeros \<noteq> pattern_A
   \<and> bcache_write_b (Some pattern_B) cache0 0 pattern_A =
     (DONE, \<lparr>disk = disk0,
             cache = [\<lparr>blocknum = 0, state = BLOCK_DIRTY, data = pattern_A\<rparr>],
             memory_blocks = 1, nreads = 0, nwrites = 1\<rparr>)
   \<and> bcache_read_b None
       \<lparr>disk = disk0, cache = [\<lparr>blocknum = 0, state = BLOCK_DIRTY, data = pattern_A\<rparr>],
        memory_blocks = 1, nreads = 0, nwrites = 1\<rparr> 0 pattern_B =
     (NOT_READY,
      \<lparr>disk = disk0, cache = [\<lparr>blocknum = 0, state = BLOCK_DIRTY, data = pattern_A\<rparr>],
       memory_blocks = 1, nreads = 0, nwrites = 1\<rparr>, pattern_B)
   \<and> pattern_B \<noteq> pattern_A"
  by (simp add: bcache_write_u_def bcache_read_u_def find_or_create_block_def
      bcache_write_b_def write_store_b_def bcache_read_b_def read_copy_b_def
      disk_read_def disk_nblocks_def example_defs)

section \<open>Who transfers\<close>

text \<open>
  C6 at concrete inputs. On the empty cache \<open>cache0\<close> a single read of block 0, with no
  scheduler step anywhere, leaves one read of block 0 in the disk's list of transfers:
  the caller did the transfer, in each of the three versions. In the third version a
  write followed by a sync leaves one write of block 0 there: the sync did it.
\<close>

theorem callers_transfer_themselves:
  "transfers (disk cache0) = []
   \<and> transfers (disk (fst (snd (bcache_read_b (Some zeros) cache0 0 zeros)))) = [DISK_READ 0]
   \<and> transfers (disk (fst (snd (bcache_read_x (Some zeros) cache0 0 zeros)))) = [DISK_READ 0]
   \<and> transfers (disk (fst (snd (bcache_read_u (Some zeros) cache0 0 zeros)))) = [DISK_READ 0]
   \<and> transfers (disk (snd (bcache_sync_u
        (snd (bcache_write_u (Some zeros) cache0 0 pattern_A))))) = [DISK_WRITE 0]"
  by (simp add: bcache_read_b_def read_copy_b_def bcache_read_x_def read_block_x_def
      bcache_read_u_def bcache_write_u_def find_or_create_block_def bcache_sync_u_def
      disk_read_def disk_write_def disk_nblocks_def example_defs)

section \<open>The number of resident blocks\<close>

lemma sync_blocks_b_length: "length (snd (sync_blocks_b bs)) = length bs"
  by (induction bs) (auto simp: split_beta)

lemma sync_blocks_u_snd:
  "snd (sync_blocks_u d bs) =
   map (\<lambda>blk. if state blk = BLOCK_DIRTY then blk\<lparr>state := BLOCK_READY\<rparr> else blk) bs"
  by (induction bs arbitrary: d) (auto simp: split_beta Let_def)

lemma exec_b_length:
  "length (cache bc) \<le> length (cache (snd (exec_b m c bc)))
   \<and> length (cache (snd (exec_b m c bc))) \<le> Suc (length (cache bc))"
  by (cases c)
     (auto simp: bcache_read_b_def read_copy_b_def bcache_write_b_def write_store_b_def
        bcache_sync_b_def sync_blocks_b_length Let_def split_beta split: option.splits)

lemma exec_x_length:
  "length (cache bc) \<le> length (cache (snd (exec_x m c bc)))
   \<and> length (cache (snd (exec_x m c bc))) \<le> Suc (length (cache bc))"
  by (cases c)
     (auto simp: bcache_read_x_def read_block_x_def bcache_write_b_def write_store_b_def
        bcache_sync_b_def sync_blocks_b_length Let_def split_beta split: option.splits)

lemma exec_u_length:
  "length (cache bc) \<le> length (cache (snd (exec_u m c bc)))
   \<and> length (cache (snd (exec_u m c bc))) \<le> Suc (length (cache bc))"
  by (cases c)
     (auto simp: bcache_read_u_def bcache_write_u_def find_or_create_block_def
        bcache_sync_u_def sync_blocks_u_snd Let_def split_beta split: option.splits)

lemma exec_memory_blocks:
  "memory_blocks (snd (exec_b m c bc)) = memory_blocks bc"
  "memory_blocks (snd (exec_x m c bc)) = memory_blocks bc"
  "memory_blocks (snd (exec_u m c bc)) = memory_blocks bc"
  by (cases c;
      auto simp: bcache_read_b_def read_copy_b_def bcache_write_b_def write_store_b_def
        bcache_sync_b_def bcache_read_x_def read_block_x_def bcache_read_u_def
        bcache_write_u_def find_or_create_block_def bcache_sync_u_def Let_def split_beta
        split: option.splits)+

text \<open>A run never loses an entry and gains at most one per call.\<close>

lemma run_calls_length:
  assumes step: "\<And>m c bc. length (cache bc) \<le> length (cache (snd (ex m c bc)))
     \<and> length (cache (snd (ex m c bc))) \<le> Suc (length (cache bc))"
  shows "length (cache bc) \<le> length (cache (snd (run_calls ex cs bc)))
     \<and> length (cache (snd (run_calls ex cs bc))) \<le> length (cache bc) + length cs"
proof (induction cs arbitrary: bc)
  case Nil
  show ?case by simp
next
  case (Cons mc cs)
  obtain m c where mc: "mc = (m, c)" by (cases mc)
  obtain st bc' where e: "ex m c bc = (st, bc')" by (cases "ex m c bc")
  from step [of bc m c] e
  have "length (cache bc) \<le> length (cache bc')"
    and "length (cache bc') \<le> Suc (length (cache bc))"
    by auto
  with Cons.IH [of bc'] show ?case
    by (auto simp: mc e split: prod.splits)
qed

lemma run_calls_memory_blocks:
  assumes step: "\<And>m c bc. memory_blocks (snd (ex m c bc)) = memory_blocks bc"
  shows "memory_blocks (snd (run_calls ex cs bc)) = memory_blocks bc"
proof (induction cs arbitrary: bc)
  case Nil
  show ?case by simp
next
  case (Cons mc cs)
  obtain m c where mc: "mc = (m, c)" by (cases mc)
  obtain st bc' where e: "ex m c bc = (st, bc')" by (cases "ex m c bc")
  from step [of m c bc] e have "memory_blocks bc' = memory_blocks bc"
    by simp
  with Cons.IH [of bc'] show ?case
    by (auto simp: mc e split: prod.splits)
qed

text \<open>
  C4, as the code falsifies it: \<open>cache0\<close> has capacity 1. After two writes to blocks 0
  and 1 in the third version, and after two reads of blocks 0 and 1 in \<^verbatim>\<open>x.c\<close>, two
  blocks are resident.
\<close>

theorem capacity_exceeded:
  "bcache_memory_blocks cache0 = 1
   \<and> length (cache (snd (run_calls exec_u
        [(Some zeros, WRITE 0 pattern_A), (Some zeros, WRITE 1 pattern_B)] cache0))) = 2
   \<and> length (cache (snd (run_calls exec_x
        [(Some zeros, READ 0 zeros), (Some zeros, READ 1 zeros)] cache0))) = 2"
  by (simp add: bcache_memory_blocks_def bcache_write_u_def find_or_create_block_def
      bcache_read_x_def read_block_x_def disk_read_def disk_nblocks_def example_defs)

text \<open>
  C4, amended: the capacity is recorded at creation and never consulted again. No call
  removes an entry and each adds at most one, so after any sequence of reads, writes and
  syncs the number of resident blocks lies between the number before the sequence and
  that number plus the number of calls, in each of the three versions; the recorded
  capacity stays as it was.
\<close>

theorem resident_blocks_bounded_by_calls:
  "length (cache bc) \<le> length (cache (snd (run_calls exec_b cs bc)))
   \<and> length (cache (snd (run_calls exec_b cs bc))) \<le> length (cache bc) + length cs
   \<and> bcache_memory_blocks (snd (run_calls exec_b cs bc)) = bcache_memory_blocks bc
   \<and> length (cache bc) \<le> length (cache (snd (run_calls exec_x cs bc)))
   \<and> length (cache (snd (run_calls exec_x cs bc))) \<le> length (cache bc) + length cs
   \<and> bcache_memory_blocks (snd (run_calls exec_x cs bc)) = bcache_memory_blocks bc
   \<and> length (cache bc) \<le> length (cache (snd (run_calls exec_u cs bc)))
   \<and> length (cache (snd (run_calls exec_u cs bc))) \<le> length (cache bc) + length cs
   \<and> bcache_memory_blocks (snd (run_calls exec_u cs bc)) = bcache_memory_blocks bc"
  using run_calls_length [of exec_b bc cs, OF exec_b_length]
    run_calls_length [of exec_x bc cs, OF exec_x_length]
    run_calls_length [of exec_u bc cs, OF exec_u_length]
    run_calls_memory_blocks [of exec_b cs bc, OF exec_memory_blocks(1)]
    run_calls_memory_blocks [of exec_x cs bc, OF exec_memory_blocks(2)]
    run_calls_memory_blocks [of exec_u cs bc, OF exec_memory_blocks(3)]
  by (simp add: bcache_memory_blocks_def)

text \<open>
  The amended C4 on \<open>cache0\<close>: after a write, a read of the same block and a write to
  another block, two blocks are resident, between 0 and 3.
\<close>

theorem resident_blocks_bounded_by_calls_witness:
  "length (cache cache0) = 0
   \<and> length (cache (snd (run_calls exec_u
        [(Some zeros, WRITE 0 pattern_A), (None, READ 0 zeros), (Some zeros, WRITE 1 pattern_B)]
        cache0))) = 2
   \<and> bcache_memory_blocks (snd (run_calls exec_u
        [(Some zeros, WRITE 0 pattern_A), (None, READ 0 zeros), (Some zeros, WRITE 1 pattern_B)]
        cache0)) = 1"
proof -
  have "length (cache (snd (run_calls exec_u
        [(Some zeros, WRITE 0 pattern_A), (None, READ 0 zeros), (Some zeros, WRITE 1 pattern_B)]
        cache0))) = 2"
    by (simp add: bcache_write_u_def bcache_read_u_def find_or_create_block_def
        disk_read_def disk_nblocks_def example_defs)
  moreover have "length (cache cache0) = 0" "bcache_memory_blocks cache0 = 1"
    by (simp_all add: bcache_memory_blocks_def cache0_def)
  ultimately show ?thesis
    using resident_blocks_bounded_by_calls [of cache0
        "[(Some zeros, WRITE 0 pattern_A), (None, READ 0 zeros), (Some zeros, WRITE 1 pattern_B)]"]
    by simp
qed

section \<open>The counters\<close>

lemma exec_b_counts:
  "exec_b m c bc = (st, bc') \<Longrightarrow>
   nreads bc' = nreads bc + (if is_read c \<and> st = DONE then 1 else 0)
   \<and> nwrites bc' = nwrites bc + (if is_write c \<and> st = DONE then 1 else 0)"
  by (cases c)
     (auto simp: bcache_read_b_def read_copy_b_def bcache_write_b_def write_store_b_def
        bcache_sync_b_def Let_def split_beta split: option.splits if_splits)

lemma exec_u_counts:
  "exec_u m c bc = (st, bc') \<Longrightarrow>
   nreads bc' = nreads bc + (if is_read c \<and> st = DONE then 1 else 0)
   \<and> nwrites bc' = nwrites bc + (if is_write c \<and> st = DONE then 1 else 0)"
  by (cases c)
     (auto simp: bcache_read_u_def bcache_write_u_def find_or_create_block_def
        bcache_sync_u_def Let_def split_beta split: option.splits if_splits)

text \<open>Along a run each counter grows by the number of its successful calls.\<close>

lemma run_calls_counts:
  assumes step: "\<And>m c bc st bc'. ex m c bc = (st, bc') \<Longrightarrow>
     nreads bc' = nreads bc + (if is_read c \<and> st = DONE then 1 else 0)
     \<and> nwrites bc' = nwrites bc + (if is_write c \<and> st = DONE then 1 else 0)"
  shows "run_calls ex cs bc = (tr, bc') \<Longrightarrow>
     nreads bc' = nreads bc + of_nat (successful_reads tr)
     \<and> nwrites bc' = nwrites bc + of_nat (successful_writes tr)"
proof (induction cs arbitrary: bc tr bc')
  case Nil
  then show ?case by (simp add: successful_reads_def successful_writes_def)
next
  case (Cons mc cs)
  obtain m c where mc: "mc = (m, c)" by (cases mc)
  obtain st bc1 where e: "ex m c bc = (st, bc1)" by (cases "ex m c bc")
  note s = step [OF e]
  show ?case
  proof (cases "st = WAITING \<or> st = CRASHED")
    case True
    with Cons.prems mc e have "tr = [(c, st)]" "bc' = bc1" by auto
    with s True show ?thesis by (auto simp: successful_reads_def successful_writes_def)
  next
    case False
    obtain tr2 bc2 where r: "run_calls ex cs bc1 = (tr2, bc2)"
      by (cases "run_calls ex cs bc1")
    with Cons.prems mc e False have tr: "tr = (c, st) # tr2" "bc' = bc2" by auto
    from Cons.IH [OF r] s tr show ?thesis
      by (auto simp: successful_reads_def successful_writes_def)
  qed
qed

text \<open>
  In the third version a read that returns has copied and counted: its only other ends
  are the wait and the crash. In \<^verbatim>\<open>bcache.c\<close> a read can also run to its last statement
  and return having done neither.
\<close>

lemma bcache_read_u_status:
  "fst (bcache_read_u m bc b buf) = DONE \<or> fst (bcache_read_u m bc b buf) = WAITING
   \<or> fst (bcache_read_u m bc b buf) = CRASHED"
  by (simp add: bcache_read_u_def Let_def split_beta split: option.splits)

text \<open>
  C7 at a concrete input, in \<^verbatim>\<open>bcache.c\<close>. On the cache \<open>cache0\<close> just created,
  \<open>pattern_A\<close> is written to block 0 and block 0 is read. Both calls return: the write
  is done, the read runs to its last statement, prints no error, and, the block being
  dirty, skips the copy and the increment together. After one read call that has
  returned, \<^verbatim>\<open>bcache_nreads\<close> is 0.
\<close>

theorem read_of_dirty_block_not_counted:
  "run_calls exec_b [(Some zeros, WRITE 0 pattern_A), (None, READ 0 pattern_B)] cache0
     = ([(WRITE 0 pattern_A, DONE), (READ 0 pattern_B, NOT_READY)],
        \<lparr>disk = disk0,
         cache = [\<lparr>blocknum = 0, state = BLOCK_DIRTY, data = pattern_A\<rparr>],
         memory_blocks = 1, nreads = 0, nwrites = 1\<rparr>)
   \<and> bcache_nreads (snd (run_calls exec_b
        [(Some zeros, WRITE 0 pattern_A), (None, READ 0 pattern_B)] cache0)) = 0
   \<and> bcache_nwrites (snd (run_calls exec_b
        [(Some zeros, WRITE 0 pattern_A), (None, READ 0 pattern_B)] cache0)) = 1"
  by (simp add: bcache_write_b_def write_store_b_def bcache_read_b_def read_copy_b_def
      bcache_nreads_def bcache_nwrites_def example_defs)

section \<open>Sync\<close>

lemma sync_blocks_b_DONE:
  "fst (sync_blocks_b bs) = DONE \<Longrightarrow>
   snd (sync_blocks_b bs) = bs \<and> (\<forall>blk \<in> set bs. state blk \<noteq> BLOCK_DIRTY)"
  by (induction bs) (auto simp: split_beta split: if_splits)

text \<open>
  The sync of \<^verbatim>\<open>bcache.c\<close> returns exactly when no block is dirty; with a dirty block
  it waits, holding the cache lock that the scheduler needs.
\<close>

lemma sync_blocks_b_DONE_iff:
  "(fst (sync_blocks_b bs) = DONE) = (\<forall>blk \<in> set bs. state blk \<noteq> BLOCK_DIRTY)"
  by (induction bs) (auto simp: split_beta split: if_splits)

lemma sync_blocks_b_status:
  "fst (sync_blocks_b bs) = DONE \<or> fst (sync_blocks_b bs) = WAITING"
  by (induction bs) (auto simp: split_beta split: if_splits)

text \<open>
  In the third version every state reached by calls run one after the other from a
  created cache is settled: \<^verbatim>\<open>BLOCK_WRITING\<close> and \<^verbatim>\<open>BLOCK_READING\<close> are held only
  inside a call.
\<close>

lemma find_or_create_block_result:
  "find_or_create_block m bc b = (bc1, r) \<Longrightarrow>
   disk bc1 = disk bc \<and> nreads bc1 = nreads bc \<and> nwrites bc1 = nwrites bc
   \<and> memory_blocks bc1 = memory_blocks bc
   \<and> (case r of
        None \<Rightarrow> bc1 = bc
      | Some i \<Rightarrow> i < length (cache bc1) \<and> blocknum (cache bc1 ! i) = b
          \<and> (cache bc1 = cache bc
              \<or> (\<exists>junk. i = 0 \<and> cache bc1
                    = \<lparr>blocknum = b, state = BLOCK_FREE, data = junk\<rparr> # cache bc)))"
  by (auto simp: find_or_create_block_def split: option.splits dest: find_blocknum_Some)

lemma settled_Cons_update:
  "settled bc \<Longrightarrow> state blk = BLOCK_READY \<or> state blk = BLOCK_DIRTY \<Longrightarrow>
   cache bc' = (new # cache bc)[0 := blk] \<Longrightarrow> settled bc'"
  by (auto simp: settled_def)

lemma bcache_read_u_settled: "settled bc \<Longrightarrow> settled (fst (snd (bcache_read_u m bc b buf)))"
proof -
  assume s: "settled bc"
  obtain bc1 r where f: "find_or_create_block m bc b = (bc1, r)"
    by (cases "find_or_create_block m bc b")
  note fr = find_or_create_block_result [OF f]
  show ?thesis
  proof (cases r)
    case None
    with f fr s show ?thesis by (simp add: bcache_read_u_def)
  next
    case (Some i)
    with fr have "cache bc1 = cache bc
       \<or> (\<exists>junk. i = 0 \<and> cache bc1 = \<lparr>blocknum = b, state = BLOCK_FREE, data = junk\<rparr> # cache bc)"
      by simp
    then show ?thesis
    proof
      assume "cache bc1 = cache bc"
      with s have "settled bc1" by (simp add: settled_def)
      with f Some show ?thesis
        by (auto simp: bcache_read_u_def Let_def split_beta settled_def
            dest!: set_update_subset_insert [THEN subsetD])
    next
      assume "\<exists>junk. i = 0 \<and> cache bc1 = \<lparr>blocknum = b, state = BLOCK_FREE, data = junk\<rparr> # cache bc"
      with f Some s show ?thesis
        by (auto simp: bcache_read_u_def Let_def split_beta settled_def)
    qed
  qed
qed

lemma bcache_write_u_settled: "settled bc \<Longrightarrow> settled (snd (bcache_write_u m bc b p))"
proof -
  assume s: "settled bc"
  obtain bc1 r where f: "find_or_create_block m bc b = (bc1, r)"
    by (cases "find_or_create_block m bc b")
  note fr = find_or_create_block_result [OF f]
  show ?thesis
  proof (cases r)
    case None
    with f fr s show ?thesis by (simp add: bcache_write_u_def)
  next
    case (Some i)
    with fr have "cache bc1 = cache bc
       \<or> (\<exists>junk. i = 0 \<and> cache bc1 = \<lparr>blocknum = b, state = BLOCK_FREE, data = junk\<rparr> # cache bc)"
      by simp
    then show ?thesis
    proof
      assume "cache bc1 = cache bc"
      with s have "settled bc1" by (simp add: settled_def)
      with f Some show ?thesis
        by (auto simp: bcache_write_u_def Let_def split_beta settled_def
            dest!: set_update_subset_insert [THEN subsetD])
    next
      assume "\<exists>junk. i = 0 \<and> cache bc1 = \<lparr>blocknum = b, state = BLOCK_FREE, data = junk\<rparr> # cache bc"
      with f Some s show ?thesis
        by (auto simp: bcache_write_u_def Let_def split_beta settled_def)
    qed
  qed
qed

lemma bcache_sync_u_settled: "settled bc \<Longrightarrow> settled (snd (bcache_sync_u bc))"
  by (auto simp: bcache_sync_u_def split_beta sync_blocks_u_snd settled_def)

lemma exec_u_settled: "settled bc \<Longrightarrow> settled (snd (exec_u m c bc))"
  using bcache_read_u_settled bcache_write_u_settled bcache_sync_u_settled
  by (cases c) (auto simp: split_beta)

lemma run_calls_u_settled: "settled bc \<Longrightarrow> settled (snd (run_calls exec_u cs bc))"
proof (induction cs arbitrary: bc)
  case Nil
  then show ?case by simp
next
  case (Cons mc cs)
  obtain m c where mc: "mc = (m, c)" by (cases mc)
  obtain st bc' where e: "exec_u m c bc = (st, bc')" by (cases "exec_u m c bc")
  from exec_u_settled [OF Cons.prems, of m c] e have "settled bc'" by simp
  with Cons.IH [of bc'] show ?case
    by (auto simp: mc e split: prod.splits)
qed


lemma bcache_create_u_settled: "bcache_create_u True d mb = Some bc \<Longrightarrow> settled bc"
  by (auto simp: bcache_create_u_def settled_def)

text \<open>
  The sync of the third version, called when no resident block is in \<^verbatim>\<open>BLOCK_WRITING\<close>
  (between calls none is, see \<open>run_calls_u_settled\<close>), returns, and on return no resident
  block is dirty or being written.
\<close>

lemma bcache_sync_u_all_clean:
  "\<forall>blk \<in> set (cache bc). state blk \<noteq> BLOCK_WRITING \<Longrightarrow>
   fst (bcache_sync_u bc) = DONE \<and> all_clean (snd (bcache_sync_u bc))"
  by (auto simp: bcache_sync_u_def all_clean_def split_beta sync_blocks_u_snd)

text \<open>
  The sync of \<^verbatim>\<open>bcache.c\<close>, called with a dirty block resident, does not return: it
  waits, and the block it waits for is left in \<^verbatim>\<open>BLOCK_WRITING\<close>.
\<close>

lemma sync_blocks_b_dirty:
  "\<exists>blk \<in> set bs. state blk = BLOCK_DIRTY \<Longrightarrow>
   fst (sync_blocks_b bs) = WAITING
   \<and> (\<exists>blk \<in> set (snd (sync_blocks_b bs)). state blk = BLOCK_WRITING)"
  by (induction bs) (auto simp: split_beta)

lemma bcache_sync_b_dirty:
  "\<exists>blk \<in> set (cache bc). state blk = BLOCK_DIRTY \<Longrightarrow>
   fst (bcache_sync_b bc) = WAITING \<and> \<not> all_clean (snd (bcache_sync_b bc))
   \<and> disk (snd (bcache_sync_b bc)) = disk bc"
  using sync_blocks_b_dirty [of "cache bc"]
  by (auto simp: bcache_sync_b_def all_clean_def split_beta)

text \<open>
  C5 at a concrete input, in \<^verbatim>\<open>bcache.c\<close>. On the cache \<open>cache0\<close> just created,
  \<open>pattern_A\<close> is written to block 0 and sync is called. The sync marks the block
  \<^verbatim>\<open>BLOCK_WRITING\<close> and waits on its condition variable, the cache lock still held
  (lines 168 to 174). The pass of the scheduler begins by taking the cache lock
  (line 191), so the scheduler does not get to the block: the sync does not return, the
  block stays in \<^verbatim>\<open>BLOCK_WRITING\<close>, and the disk has seen no transfer.
\<close>

theorem sync_waits_on_dirty_block:
  "bcache_write_b (Some zeros) cache0 0 pattern_A =
     (DONE, \<lparr>disk = disk0,
             cache = [\<lparr>blocknum = 0, state = BLOCK_DIRTY, data = pattern_A\<rparr>],
             memory_blocks = 1, nreads = 0, nwrites = 1\<rparr>)
   \<and> bcache_sync_b
       \<lparr>disk = disk0, cache = [\<lparr>blocknum = 0, state = BLOCK_DIRTY, data = pattern_A\<rparr>],
        memory_blocks = 1, nreads = 0, nwrites = 1\<rparr> =
     (WAITING, \<lparr>disk = disk0,
                cache = [\<lparr>blocknum = 0, state = BLOCK_WRITING, data = pattern_A\<rparr>],
                memory_blocks = 1, nreads = 0, nwrites = 1\<rparr>)
   \<and> transfers disk0 = []
   \<and> (\<exists>blk \<in> set (cache
       \<lparr>disk = disk0, cache = [\<lparr>blocknum = 0, state = BLOCK_WRITING, data = pattern_A\<rparr>],
        memory_blocks = 1, nreads = 0, nwrites = 1\<rparr>). state blk = BLOCK_WRITING)"
  by (simp add: bcache_write_b_def write_store_b_def bcache_sync_b_def example_defs)

section \<open>Concurrent readers of one block\<close>

subsection \<open>Pointers and the disk\<close>

lemma block_at_Cons_old: "p < length bs \<Longrightarrow> block_at (blk # bs) p = block_at bs p"
  by (simp add: block_at_def Suc_diff_Suc)

lemma block_at_Cons_new: "block_at (blk # bs) (length bs) = blk"
  by (simp add: block_at_def)

lemma length_set_block_at: "length (set_block_at bs q blk) = length bs"
  by (simp add: set_block_at_def)

lemma block_at_set_block_at:
  "p < length bs \<Longrightarrow> q < length bs \<Longrightarrow>
   block_at (set_block_at bs q blk) p = (if p = q then blk else block_at bs p)"
  by (auto simp: block_at_def set_block_at_def)

lemma reads_of_disk_read:
  "reads_of b (fst (disk_read d b' buf)) = reads_of b d + (if b' = b then 1 else 0)"
  by (simp add: reads_of_def disk_read_def)

lemma reads_of_disk_write: "reads_of b (disk_write d b' buf) = reads_of b d"
  by (simp add: reads_of_def disk_write_def)

lemma disk_read_again:
  "snd (disk_read (fst (disk_read d b' buf)) b z) = snd (disk_read d b z)"
  by (simp add: disk_read_def disk_nblocks_def)

lemma disk_read_after_write:
  "b' \<noteq> b \<Longrightarrow> snd (disk_read (disk_write d b' buf) b z) = snd (disk_read d b z)"
  by (auto simp: disk_read_def disk_write_def disk_nblocks_def nat_eq_iff)

subsection \<open>The invariant of the third version\<close>

lemma inv_uI:
  assumes "length (readers w) = length bufs"
    and "\<And>z. snd (disk_read (disk (shared w)) b z) = snd (disk_read d0 b z)"
    and "\<And>q. sched w = Some q \<Longrightarrow> q < L"
    and "L \<le> length (cache (shared w))"
    and "\<And>p. p < L \<Longrightarrow> blocknum (block_at (cache (shared w)) p) \<noteq> b"
    and "head_ok b L k d0 (length bufs) ph (shared w)"
    and "\<And>i. i < length bufs \<Longrightarrow> reader_ok L bufs ph i (readers w ! i)"
  shows "inv_u b L k d0 bufs ph w"
  using assms unfolding inv_u_def by blast

lemma inv_uD:
  assumes "inv_u b L k d0 bufs ph w"
  shows "length (readers w) = length bufs"
    and "\<And>z. snd (disk_read (disk (shared w)) b z) = snd (disk_read d0 b z)"
    and "\<And>q. sched w = Some q \<Longrightarrow> q < L"
    and "L \<le> length (cache (shared w))"
    and "\<And>p. p < L \<Longrightarrow> blocknum (block_at (cache (shared w)) p) \<noteq> b"
    and "head_ok b L k d0 (length bufs) ph (shared w)"
    and "\<And>i. i < length bufs \<Longrightarrow> reader_ok L bufs ph i (readers w ! i)"
  using assms unfolding inv_u_def by blast+

lemma find_blocknum_pointer:
  "find_blocknum bs b = Some i \<Longrightarrow>
   pointer_to bs i < length bs \<and> blocknum (block_at bs (pointer_to bs i)) = b"
  by (drule find_blocknum_Some) (auto simp: pointer_to_def block_at_def Suc_diff_Suc)

lemma find_blocknum_None:
  "find_blocknum bs b = None \<Longrightarrow> p < length bs \<Longrightarrow> blocknum (block_at bs p) \<noteq> b"
proof -
  have "find_blocknum bs b = None \<Longrightarrow> \<forall>blk \<in> set bs. blocknum blk \<noteq> b"
    by (induction bs) (auto split: if_splits)
  moreover assume "find_blocknum bs b = None" "p < length bs"
  ultimately show ?thesis
    by (auto simp: block_at_def)
qed

lemma find_blocknum_NoneI:
  "(\<And>p. p < length bs \<Longrightarrow> blocknum (block_at bs p) \<noteq> b) \<Longrightarrow> find_blocknum bs b = None"
proof (rule ccontr)
  assume h: "\<And>p. p < length bs \<Longrightarrow> blocknum (block_at bs p) \<noteq> b"
  assume "find_blocknum bs b \<noteq> None"
  then obtain i where "find_blocknum bs b = Some i" by auto
  from find_blocknum_pointer [OF this] h [of "pointer_to bs i"] show False by auto
qed

lemma find_dirty_pointer:
  "find_dirty bs = Some i \<Longrightarrow>
   pointer_to bs i < length bs \<and> state (block_at bs (pointer_to bs i)) = BLOCK_DIRTY"
proof -
  have "find_dirty bs = Some i \<Longrightarrow> i < length bs \<and> state (bs ! i) = BLOCK_DIRTY"
    by (induction bs arbitrary: i) (auto split: if_splits)
  then show "find_dirty bs = Some i \<Longrightarrow> ?thesis"
    by (auto simp: pointer_to_def block_at_def Suc_diff_Suc)
qed

lemma inv_u_start:
  "find_blocknum (cache bc) b = None \<Longrightarrow>
   inv_u b (length (cache bc)) (reads_of b (disk bc)) (disk bc) bufs ABSENT (start_world bc bufs)"
  by (rule inv_uI)
     (auto simp: start_world_def head_ok_def reader_ok_def dest: find_blocknum_None)

lemma inv_u_update:
  assumes inv: "inv_u b L k d0 bufs ph w" and i: "i < length bufs"
    and dsk: "\<And>z. snd (disk_read (disk bc') b z) = snd (disk_read d0 b z)"
    and len: "L \<le> length (cache bc')"
    and old: "\<And>p. p < L \<Longrightarrow> block_at (cache bc') p = block_at (cache (shared w)) p"
    and head: "head_ok b L k d0 (length bufs) ph' bc'"
    and me: "reader_ok L bufs ph' i r'"
    and others: "\<And>j. j < length bufs \<Longrightarrow> j \<noteq> i \<Longrightarrow> reader_ok L bufs ph j (readers w ! j)
        \<Longrightarrow> reader_ok L bufs ph' j (readers w ! j)"
  shows "inv_u b L k d0 bufs ph' (w\<lparr>shared := bc', readers := (readers w)[i := r']\<rparr>)"
proof (rule inv_uI)
  note d = inv_uD [OF inv]
  show "length (readers (w\<lparr>shared := bc', readers := (readers w)[i := r']\<rparr>)) = length bufs"
    using d(1) by simp
  show "\<And>z. snd (disk_read (disk (shared (w\<lparr>shared := bc', readers := (readers w)[i := r']\<rparr>))) b z)
      = snd (disk_read d0 b z)"
    using dsk by simp
  show "\<And>q. sched (w\<lparr>shared := bc', readers := (readers w)[i := r']\<rparr>) = Some q \<Longrightarrow> q < L"
    using d(3) by simp
  show "L \<le> length (cache (shared (w\<lparr>shared := bc', readers := (readers w)[i := r']\<rparr>)))"
    using len by simp
  show "\<And>p. p < L \<Longrightarrow>
      blocknum (block_at (cache (shared (w\<lparr>shared := bc', readers := (readers w)[i := r']\<rparr>))) p) \<noteq> b"
    using d(5) old by simp
  show "head_ok b L k d0 (length bufs) ph' (shared (w\<lparr>shared := bc', readers := (readers w)[i := r']\<rparr>))"
    using head by simp
  fix j assume j: "j < length bufs"
  show "reader_ok L bufs ph' j (readers (w\<lparr>shared := bc', readers := (readers w)[i := r']\<rparr>) ! j)"
    using me others [OF j] d(7) [OF j] d(1) i j by (cases "j = i") simp_all
qed

lemma head_ok_same:
  "length (cache bc') = length (cache bc) \<Longrightarrow>
   block_at (cache bc') L = block_at (cache bc) L \<Longrightarrow>
   reads_of b (disk bc') = reads_of b (disk bc) \<Longrightarrow>
   head_ok b L k d0 n ph bc' = head_ok b L k d0 n ph bc"
  by (simp add: head_ok_def split: phase.splits)

lemma head_not_dirty:
  "head_ok b L k d0 n ph bc \<Longrightarrow> q < length (cache bc) \<Longrightarrow>
   state (block_at (cache bc) q) = BLOCK_DIRTY \<Longrightarrow> q < L"
  by (cases "q = L") (auto simp: head_ok_def split: phase.splits)

lemma inv_u_scheduler:
  assumes inv: "inv_u b L k d0 bufs ph w" and st: "scheduler_step_u w = Some w'"
  shows "inv_u b L k d0 bufs ph w'"
proof -
  let ?bc = "shared w"
  let ?bs = "cache ?bc"
  note d = inv_uD [OF inv]
  have upd: "inv_u b L k d0 bufs ph (w\<lparr>shared := bc', sched := s'\<rparr>)"
    if q: "q < L" and c: "cache bc' = set_block_at ?bs q blk"
      and bn: "blocknum blk = blocknum (block_at ?bs q)"
      and rd: "\<And>z. snd (disk_read (disk bc') b z) = snd (disk_read (disk ?bc) b z)"
      and ro: "reads_of b (disk bc') = reads_of b (disk ?bc)"
      and s': "\<And>q'. s' = Some q' \<Longrightarrow> q' < L"
    for bc' s' q blk
  proof (rule inv_uI)
    from q d(4) have ql: "q < length ?bs" by simp
    show "length (readers (w\<lparr>shared := bc', sched := s'\<rparr>)) = length bufs"
      using d(1) by simp
    show "\<And>z. snd (disk_read (disk (shared (w\<lparr>shared := bc', sched := s'\<rparr>))) b z)
        = snd (disk_read d0 b z)"
      using rd d(2) by simp
    show "\<And>q'. sched (w\<lparr>shared := bc', sched := s'\<rparr>) = Some q' \<Longrightarrow> q' < L"
      using s' by simp
    show "L \<le> length (cache (shared (w\<lparr>shared := bc', sched := s'\<rparr>)))"
      using d(4) c by (simp add: length_set_block_at)
    show "\<And>p. p < L \<Longrightarrow> blocknum (block_at (cache (shared (w\<lparr>shared := bc', sched := s'\<rparr>))) p) \<noteq> b"
      using d(4,5) ql bn c by (auto simp: block_at_set_block_at)
    have "head_ok b L k d0 (length bufs) ph bc' = head_ok b L k d0 (length bufs) ph ?bc"
    proof (cases "L < length ?bs")
      case True
      with q ql c ro show ?thesis
        by (intro head_ok_same) (simp_all add: length_set_block_at block_at_set_block_at)
    next
      case False
      with d(4) have "length ?bs = L" by simp
      with d(6) c ro show ?thesis
        by (cases ph) (simp_all add: head_ok_def length_set_block_at)
    qed
    then show "head_ok b L k d0 (length bufs) ph (shared (w\<lparr>shared := bc', sched := s'\<rparr>))"
      using d(6) by simp
    show "\<And>i. i < length bufs \<Longrightarrow>
        reader_ok L bufs ph i (readers (w\<lparr>shared := bc', sched := s'\<rparr>) ! i)"
      using d(7) by simp
  qed
  show ?thesis
  proof (cases "sched w")
    case None
    show ?thesis
    proof (cases "find_dirty ?bs")
      case None
      with \<open>sched w = None\<close> st have "w' = w"
        by (simp add: scheduler_step_u_def)
      with inv show ?thesis by simp
    next
      case (Some j)
      let ?q = "pointer_to ?bs j"
      from find_dirty_pointer [OF Some] have ql: "?q < length ?bs"
        and dirty: "state (block_at ?bs ?q) = BLOCK_DIRTY"
        by simp_all
      from head_not_dirty [OF d(6) ql dirty] have qL: "?q < L" .
      from Some \<open>sched w = None\<close> st have
        w': "w' = w\<lparr>shared := ?bc\<lparr>cache := set_block_at ?bs ?q
                  ((block_at ?bs ?q)\<lparr>state := BLOCK_WRITING\<rparr>)\<rparr>, sched := Some ?q\<rparr>"
        by (simp add: scheduler_step_u_def Let_def)
      show ?thesis
        unfolding w' using qL
        by (intro upd [where q = "pointer_to ?bs j"
              and blk = "(block_at ?bs (pointer_to ?bs j))\<lparr>state := BLOCK_WRITING\<rparr>"])
           simp_all
    qed
  next
    case (Some q)
    with d(3) have qL: "q < L" by simp
    with d(4) have ql: "q < length ?bs" by simp
    from d(5) [OF qL] have nb: "blocknum (block_at ?bs q) \<noteq> b" .
    from Some ql st have
      w': "w' = w\<lparr>shared := ?bc\<lparr>disk := disk_write (disk ?bc) (blocknum (block_at ?bs q))
                    (data (block_at ?bs q)),
                cache := set_block_at ?bs q ((block_at ?bs q)\<lparr>state := BLOCK_READY\<rparr>)\<rparr>,
              sched := None\<rparr>"
      by (simp add: scheduler_step_u_def Let_def)
    show ?thesis
      unfolding w' using qL nb
      by (intro upd [where q = q and blk = "(block_at ?bs q)\<lparr>state := BLOCK_READY\<rparr>"])
         (simp_all add: disk_read_after_write reads_of_disk_write)
  qed
qed

lemma reader_ok_pc:
  "reader_ok L bufs ph i r \<Longrightarrow> pc r \<noteq> FAILED
   \<and> (\<forall>p. pc r = HAVE p \<or> pc r = TRANSFER p \<or> pc r = FINISH p \<or> pc r = WAIT p \<longrightarrow> p = L)"
  by (auto simp: reader_ok_def before_copy_def finished_def split: phase.splits if_splits)

lemma inv_u_reader:
  assumes inv: "inv_u b L k d0 bufs ph w" and st: "step_u b w (READER i m) = Some w'"
  shows "\<exists>ph'. inv_u b L k d0 bufs ph' w'"
proof -
  let ?bc = "shared w"
  let ?bs = "cache ?bc"
  let ?r = "readers w ! i"
  let ?n = "length bufs"
  note d = inv_uD [OF inv]
  from st have "i < length (readers w)"
    by (auto split: if_splits)
  with d(1) have i: "i < ?n" by simp
  from st i d(1) obtain bc' r' where rs: "reader_step_u b m ?bc ?r = Some (bc', r')"
    and w': "w' = w\<lparr>shared := bc', readers := (readers w)[i := r']\<rparr>"
    by (auto split: option.splits)
  note ok = d(7) [OF i]
  note hd = d(6)
  have present: "find_blocknum ?bs b = Some j \<Longrightarrow> pointer_to ?bs j = L" for j
    using find_blocknum_pointer [of ?bs b j] d(5) [of "pointer_to ?bs j"] hd
    by (cases "pointer_to ?bs j < L"; cases ph) (auto simp: head_ok_def)
  have Llen: "ph \<noteq> ABSENT \<Longrightarrow> length ?bs = Suc L"
    using hd by (cases ph) (simp_all add: head_ok_def)
  have at: "ph \<noteq> ABSENT \<Longrightarrow> p < Suc L \<Longrightarrow>
      block_at (set_block_at ?bs L blk) p = (if p = L then blk else block_at ?bs p)" for p blk
    using Llen by (simp add: block_at_set_block_at)
  show ?thesis
  proof (cases "pc ?r")
    case START
    show ?thesis
    proof (cases "find_blocknum ?bs b")
      case None
      have absent: "ph = ABSENT"
      proof (rule ccontr)
        assume "ph \<noteq> ABSENT"
        with hd have "L < length ?bs" "blocknum (block_at ?bs L) = b"
          by (cases ph; simp add: head_ok_def)+
        with find_blocknum_None [OF None, of L] show False by simp
      qed
      from None START rs obtain junk where m: "m = Some junk"
        by (cases m) (auto simp: reader_step_u_def find_or_create_block_def)
      let ?new = "\<lparr>blocknum = b, state = BLOCK_FREE, data = junk\<rparr>"
      from None START rs m have bc': "bc' = ?bc\<lparr>cache := ?new # ?bs\<rparr>"
        and r': "r' = ?r\<lparr>pc := HAVE (length ?bs)\<rparr>"
        by (auto simp: reader_step_u_def find_or_create_block_def pointer_to_def)
      from hd absent have len: "length ?bs = L" and rk: "reads_of b (disk ?bc) = k"
        by (simp_all add: head_ok_def)
      have "inv_u b L k d0 bufs FRESH w'"
        unfolding w'
      proof (rule inv_u_update [OF inv i])
        show "\<And>z. snd (disk_read (disk bc') b z) = snd (disk_read d0 b z)"
          using d(2) by (simp add: bc')
        show "L \<le> length (cache bc')"
          using len by (simp add: bc')
        show "\<And>p. p < L \<Longrightarrow> block_at (cache bc') p = block_at ?bs p"
          using len by (simp add: bc' block_at_Cons_old)
        show "head_ok b L k d0 ?n FRESH bc'"
          using len rk block_at_Cons_new [of ?new ?bs] by (simp add: head_ok_def bc')
        show "reader_ok L bufs FRESH i r'"
          using ok absent len by (simp add: reader_ok_def r')
        show "\<And>j. j < ?n \<Longrightarrow> j \<noteq> i \<Longrightarrow> reader_ok L bufs ph j (readers w ! j)
            \<Longrightarrow> reader_ok L bufs FRESH j (readers w ! j)"
          using absent by (simp add: reader_ok_def)
      qed
      then show ?thesis ..
    next
      case (Some j)
      with START rs present [OF Some] have bc': "bc' = ?bc" and r': "r' = ?r\<lparr>pc := HAVE L\<rparr>"
        by (auto simp: reader_step_u_def find_or_create_block_def)
      from Some have na: "ph \<noteq> ABSENT"
        using find_blocknum_pointer [OF Some] present [OF Some] hd
        by (auto simp: head_ok_def)
      have "inv_u b L k d0 bufs ph w'"
        unfolding w'
      proof (rule inv_u_update [OF inv i])
        show "reader_ok L bufs ph i r'"
          using ok START na
          by (cases ph) (auto simp: reader_ok_def r' before_copy_def finished_def split: if_splits)
      qed (use d bc' in simp_all)
      then show ?thesis ..
    qed
  next
    case (HAVE p)
    with reader_ok_pc [OF ok] have p: "p = L" by simp
    from HAVE ok have na: "ph \<noteq> ABSENT"
      by (auto simp: reader_ok_def)
    note len = Llen [OF na]
    show ?thesis
    proof (cases ph)
      case ABSENT
      with na show ?thesis by simp
    next
      case FRESH
      let ?blk = "(block_at ?bs L)\<lparr>state := BLOCK_READING\<rparr>"
      from hd FRESH have stt: "state (block_at ?bs L) = BLOCK_FREE"
        by (simp add: head_ok_def)
      with HAVE p len rs have bc': "bc' = ?bc\<lparr>cache := set_block_at ?bs L ?blk\<rparr>"
        and r': "r' = ?r\<lparr>pc := TRANSFER L\<rparr>"
        by (auto simp: reader_step_u_def Let_def)
      have "inv_u b L k d0 bufs (CLAIMED i) w'"
        unfolding w'
      proof (rule inv_u_update [OF inv i])
        show "\<And>z. snd (disk_read (disk bc') b z) = snd (disk_read d0 b z)"
          using d(2) by (simp add: bc')
        show "L \<le> length (cache bc')"
          using len by (simp add: bc' length_set_block_at)
        show "\<And>p. p < L \<Longrightarrow> block_at (cache bc') p = block_at ?bs p"
          using at [OF na] by (simp add: bc')
        show "head_ok b L k d0 ?n (CLAIMED i) bc'"
          using hd FRESH i len at [OF na, of L] by (simp add: head_ok_def bc' length_set_block_at)
        show "reader_ok L bufs (CLAIMED i) i r'"
          using ok FRESH by (simp add: reader_ok_def r')
        show "\<And>j. j < ?n \<Longrightarrow> j \<noteq> i \<Longrightarrow> reader_ok L bufs ph j (readers w ! j)
            \<Longrightarrow> reader_ok L bufs (CLAIMED i) j (readers w ! j)"
          using FRESH by (auto simp: reader_ok_def before_copy_def)
      qed
      then show ?thesis ..
    next
      case (CLAIMED ow)
      from hd CLAIMED have stt: "state (block_at ?bs L) = BLOCK_READING"
        by (simp add: head_ok_def)
      with HAVE p len rs have bc': "bc' = ?bc" and r': "r' = ?r\<lparr>pc := WAIT L\<rparr>"
        by (auto simp: reader_step_u_def Let_def)
      have "inv_u b L k d0 bufs ph w'"
        unfolding w'
      proof (rule inv_u_update [OF inv i])
        show "reader_ok L bufs ph i r'"
          using ok HAVE CLAIMED
          by (auto simp: reader_ok_def r' before_copy_def split: if_splits)
      qed (use d bc' in simp_all)
      then show ?thesis ..
    next
      case (FILLED ow dat)
      from hd FILLED have stt: "state (block_at ?bs L) = BLOCK_READING"
        by (simp add: head_ok_def)
      with HAVE p len rs have bc': "bc' = ?bc" and r': "r' = ?r\<lparr>pc := WAIT L\<rparr>"
        by (auto simp: reader_step_u_def Let_def)
      have "inv_u b L k d0 bufs ph w'"
        unfolding w'
      proof (rule inv_u_update [OF inv i])
        show "reader_ok L bufs ph i r'"
          using ok HAVE FILLED
          by (auto simp: reader_ok_def r' before_copy_def split: if_splits)
      qed (use d bc' in simp_all)
      then show ?thesis ..
    next
      case (VALID dat)
      from hd VALID have stt: "state (block_at ?bs L) = BLOCK_READY"
        and dt: "data (block_at ?bs L) = dat"
        by (simp_all add: head_ok_def)
      with HAVE p len rs have bc': "bc' = ?bc" and r': "r' = copy_out (block_at ?bs L) ?r"
        by (auto simp: reader_step_u_def Let_def)
      have "inv_u b L k d0 bufs ph w'"
        unfolding w'
      proof (rule inv_u_update [OF inv i])
        show "reader_ok L bufs ph i r'"
          using ok HAVE VALID dt
          by (auto simp: reader_ok_def r' before_copy_def finished_def copy_out_def)
      qed (use d bc' in simp_all)
      then show ?thesis ..
    qed
  next
    case (TRANSFER p)
    with reader_ok_pc [OF ok] have p: "p = L" by simp
    from TRANSFER ok obtain ow where ph: "ph = CLAIMED ow"
      by (cases ph) (auto simp: reader_ok_def before_copy_def finished_def split: if_splits)
    with TRANSFER ok have ow: "ow = i"
      by (auto simp: reader_ok_def before_copy_def split: if_splits)
    from ph have na: "ph \<noteq> ABSENT" by simp
    note len = Llen [OF na]
    let ?dat = "snd (disk_read (disk ?bc) b (data (block_at ?bs L)))"
    let ?blk = "(block_at ?bs L)\<lparr>data := ?dat\<rparr>"
    from TRANSFER p len rs have
      bc': "bc' = ?bc\<lparr>disk := fst (disk_read (disk ?bc) b (data (block_at ?bs L))),
              cache := set_block_at ?bs L ?blk\<rparr>"
      and r': "r' = ?r\<lparr>pc := FINISH L\<rparr>"
      by (auto simp: reader_step_u_def Let_def split_beta)
    have "inv_u b L k d0 bufs (FILLED i ?dat) w'"
      unfolding w'
    proof (rule inv_u_update [OF inv i])
      show "\<And>z. snd (disk_read (disk bc') b z) = snd (disk_read d0 b z)"
        using d(2) by (simp add: bc' disk_read_again)
      show "L \<le> length (cache bc')"
        using len by (simp add: bc' length_set_block_at)
      show "\<And>p. p < L \<Longrightarrow> block_at (cache bc') p = block_at ?bs p"
        using at [OF na] by (simp add: bc')
      show "head_ok b L k d0 ?n (FILLED i ?dat) bc'"
        using hd ph ow len at [OF na, of L] d(2) [of "data (block_at ?bs L)"]
        by (auto simp: head_ok_def bc' length_set_block_at reads_of_disk_read)
      show "reader_ok L bufs (FILLED i ?dat) i r'"
        using ok ph by (simp add: reader_ok_def r')
      show "\<And>j. j < ?n \<Longrightarrow> j \<noteq> i \<Longrightarrow> reader_ok L bufs ph j (readers w ! j)
          \<Longrightarrow> reader_ok L bufs (FILLED i ?dat) j (readers w ! j)"
        using ph ow by (auto simp: reader_ok_def)
    qed
    then show ?thesis ..
  next
    case (FINISH p)
    with reader_ok_pc [OF ok] have p: "p = L" by simp
    from FINISH ok obtain ow dat where ph: "ph = FILLED ow dat"
      by (cases ph) (auto simp: reader_ok_def before_copy_def finished_def split: if_splits)
    with FINISH ok have ow: "ow = i"
      by (auto simp: reader_ok_def before_copy_def split: if_splits)
    from ph have na: "ph \<noteq> ABSENT" by simp
    note len = Llen [OF na]
    let ?blk = "(block_at ?bs L)\<lparr>state := BLOCK_READY\<rparr>"
    from FINISH p len rs have bc': "bc' = ?bc\<lparr>cache := set_block_at ?bs L ?blk\<rparr>"
      and r': "r' = copy_out ?blk ?r"
      by (auto simp: reader_step_u_def Let_def)
    from hd ph have dt: "data (block_at ?bs L) = dat"
      by (simp add: head_ok_def)
    have "inv_u b L k d0 bufs (VALID dat) w'"
      unfolding w'
    proof (rule inv_u_update [OF inv i])
      show "\<And>z. snd (disk_read (disk bc') b z) = snd (disk_read d0 b z)"
        using d(2) by (simp add: bc')
      show "L \<le> length (cache bc')"
        using len by (simp add: bc' length_set_block_at)
      show "\<And>p. p < L \<Longrightarrow> block_at (cache bc') p = block_at ?bs p"
        using at [OF na] by (simp add: bc')
      show "head_ok b L k d0 ?n (VALID dat) bc'"
        using hd ph len at [OF na, of L]
        by (auto simp: head_ok_def bc' length_set_block_at)
      show "reader_ok L bufs (VALID dat) i r'"
        using ok ph dt by (simp add: reader_ok_def r' copy_out_def finished_def)
      show "\<And>j. j < ?n \<Longrightarrow> j \<noteq> i \<Longrightarrow> reader_ok L bufs ph j (readers w ! j)
          \<Longrightarrow> reader_ok L bufs (VALID dat) j (readers w ! j)"
        using ph ow by (auto simp: reader_ok_def)
    qed
    then show ?thesis ..
  next
    case (WAIT p)
    with reader_ok_pc [OF ok] have p: "p = L" by simp
    from WAIT rs p have stt: "state (block_at ?bs L) = BLOCK_READY"
      and bc': "bc' = ?bc" and r': "r' = copy_out (block_at ?bs L) ?r"
      by (auto simp: reader_step_u_def split: if_splits)
    from WAIT ok stt hd obtain dat where ph: "ph = VALID dat"
      by (cases ph) (auto simp: reader_ok_def head_ok_def)
    from hd ph have dt: "data (block_at ?bs L) = dat"
      by (simp add: head_ok_def)
    have "inv_u b L k d0 bufs ph w'"
      unfolding w'
    proof (rule inv_u_update [OF inv i])
      show "reader_ok L bufs ph i r'"
        using ok WAIT ph dt
        by (auto simp: reader_ok_def r' before_copy_def finished_def copy_out_def)
    qed (use d bc' in simp_all)
    then show ?thesis ..
  next
    case COUNT
    with rs have bc': "bc' = ?bc\<lparr>nreads := nreads ?bc + 1\<rparr>" and r': "r' = ?r\<lparr>pc := RETURNED\<rparr>"
      by (auto simp: reader_step_u_def)
    have "head_ok b L k d0 ?n ph bc' = head_ok b L k d0 ?n ph ?bc"
      by (rule head_ok_same) (simp_all add: bc')
    with hd have hd': "head_ok b L k d0 ?n ph bc'"
      by simp
    have "inv_u b L k d0 bufs ph w'"
      unfolding w'
    proof (rule inv_u_update [OF inv i])
      show "reader_ok L bufs ph i r'"
        using ok COUNT
        by (cases ph) (auto simp: reader_ok_def r' before_copy_def finished_def split: if_splits)
    qed (use d hd' in \<open>simp_all add: bc'\<close>)
    then show ?thesis ..
  next
    case INSERT
    with rs show ?thesis by (simp add: reader_step_u_def)
  next
    case RETURNED
    with rs show ?thesis by (simp add: reader_step_u_def)
  next
    case FAILED
    with rs show ?thesis by (simp add: reader_step_u_def)
  qed
qed

lemma inv_u_run:
  "inv_u b L k d0 bufs ph w \<Longrightarrow> run_actions (step_u b) w acts = Some w' \<Longrightarrow>
   \<exists>ph'. inv_u b L k d0 bufs ph' w'"
proof (induction acts arbitrary: w ph)
  case Nil
  then show ?case by auto
next
  case (Cons a acts)
  from Cons.prems(2) obtain w1 where s: "step_u b w a = Some w1"
    and r: "run_actions (step_u b) w1 acts = Some w'"
    by (auto split: option.splits)
  have "\<exists>ph1. inv_u b L k d0 bufs ph1 w1"
  proof (cases a)
    case (READER i m)
    with Cons.prems(1) s show ?thesis
      by (auto intro: inv_u_reader simp del: step_u.simps)
  next
    case SCHEDULER
    with Cons.prems(1) s show ?thesis
      by (auto intro: inv_u_scheduler)
  qed
  then obtain ph1 where "inv_u b L k d0 bufs ph1 w1" ..
  from Cons.IH [OF this r] show ?case .
qed

subsection \<open>Steps left and deadlock\<close>

lemma work_left_update:
  "i < length (readers w) \<Longrightarrow>
   work_left (w\<lparr>shared := bc, readers := (readers w)[i := r]\<rparr>) + remaining (pc (readers w ! i))
     = work_left w + remaining (pc r)"
proof -
  have "i < length rs \<Longrightarrow>
      sum_list (map (\<lambda>r. remaining (pc r)) (rs[i := r])) + remaining (pc (rs ! i))
      = sum_list (map (\<lambda>r. remaining (pc r)) rs) + remaining (pc r)" for rs
    by (induction rs arbitrary: i) (auto split: nat.splits)
  then show "i < length (readers w) \<Longrightarrow> ?thesis"
    by (simp add: work_left_def)
qed

lemma reader_step_u_remaining:
  "reader_step_u b m bc r = Some (bc', r') \<Longrightarrow> remaining (pc r') < remaining (pc r)"
  by (cases "pc r")
     (auto simp: reader_step_u_def copy_out_def Let_def split_beta
        split: option.splits if_splits prod.splits)

lemma scheduler_step_u_readers: "scheduler_step_u w = Some w' \<Longrightarrow> readers w' = readers w"
  by (auto simp: scheduler_step_u_def Let_def split: option.splits if_splits)

lemma step_u_work:
  "step_u b w a = Some w' \<Longrightarrow> (if is_reader_action a then 1 else 0) + work_left w' \<le> work_left w"
proof (cases a)
  case (READER i m)
  assume "step_u b w a = Some w'"
  with READER obtain bc' r' where i: "i < length (readers w)"
    and rs: "reader_step_u b m (shared w) (readers w ! i) = Some (bc', r')"
    and w': "w' = w\<lparr>shared := bc', readers := (readers w)[i := r']\<rparr>"
    by (auto split: if_splits option.splits)
  from work_left_update [OF i, where bc = bc' and r = r'] reader_step_u_remaining [OF rs] READER
  show ?thesis by (simp add: w')
next
  case SCHEDULER
  assume "step_u b w a = Some w'"
  with SCHEDULER scheduler_step_u_readers [of w w'] show ?thesis
    by (simp add: work_left_def)
qed

lemma run_actions_work:
  assumes step: "\<And>w a w'. stp w a = Some w' \<Longrightarrow>
      (if is_reader_action a then 1 else 0) + work_left w' \<le> work_left w"
  shows "run_actions stp w acts = Some w' \<Longrightarrow>
      length (filter is_reader_action acts) + work_left w' \<le> work_left w"
proof (induction acts arbitrary: w)
  case Nil
  then show ?case by simp
next
  case (Cons a acts)
  from Cons.prems obtain w1 where s: "stp w a = Some w1"
    and r: "run_actions stp w1 acts = Some w'"
    by (auto split: option.splits)
  from step [OF s] Cons.IH [OF r] show ?case by auto
qed

lemma work_left_start: "work_left (start_world bc bufs) = 6 * length bufs"
  by (induction bufs) (simp_all add: work_left_def start_world_def)

lemma step_u_enabled:
  assumes i: "i < length (readers w)"
  shows "pc (readers w ! i) = START \<Longrightarrow> step_u b w (READER i (Some junk)) \<noteq> None"
    and "pc (readers w ! i) = HAVE p \<Longrightarrow> p < length (cache (shared w))
      \<Longrightarrow> step_u b w (READER i m) \<noteq> None"
    and "pc (readers w ! i) = TRANSFER p \<Longrightarrow> p < length (cache (shared w))
      \<Longrightarrow> step_u b w (READER i m) \<noteq> None"
    and "pc (readers w ! i) = FINISH p \<Longrightarrow> p < length (cache (shared w))
      \<Longrightarrow> step_u b w (READER i m) \<noteq> None"
    and "pc (readers w ! i) = WAIT p \<Longrightarrow> p < length (cache (shared w))
      \<Longrightarrow> state (block_at (cache (shared w)) p) = BLOCK_READY
      \<Longrightarrow> step_u b w (READER i m) \<noteq> None"
    and "pc (readers w ! i) = COUNT \<Longrightarrow> step_u b w (READER i m) \<noteq> None"
  using i
  by (auto simp: reader_step_u_def find_or_create_block_def Let_def split_beta
      split: option.splits)

lemma inv_u_live:
  assumes inv: "inv_u b L k d0 bufs ph w"
  shows "live (step_u b) w"
  unfolding live_def
proof (intro allI impI)
  fix i assume i: "i < length (readers w)"
  note d = inv_uD [OF inv]
  from i d(1) have ib: "i < length bufs" by simp
  note ok = d(7) [OF ib]
  note en = step_u_enabled [OF i, where b = b]
  let ?P = "pc (readers w ! i) = RETURNED \<or> pc (readers w ! i) = FAILED
        \<or> (\<exists>m. step_u b w (READER i m) \<noteq> None)
        \<or> (\<exists>j < length (readers w). \<exists>p.
              (pc (readers w ! j) = TRANSFER p \<or> pc (readers w ! j) = FINISH p)
              \<and> (\<exists>m. step_u b w (READER j m) \<noteq> None))"
  show ?P
  proof (cases ph)
    case ABSENT
    with ok en(1) show ?thesis
      by (auto simp: reader_ok_def)
  next
    case FRESH
    with d(6) have "L < length (cache (shared w))"
      by (simp add: head_ok_def)
    with FRESH ok en(1) en(2) [where p = L] show ?thesis
      by (auto simp: reader_ok_def)
  next
    case (CLAIMED ow)
    with d(6) d(1) have L: "L < length (cache (shared w))" and ow: "ow < length (readers w)"
      by (simp_all add: head_ok_def)
    from CLAIMED d(7) [of ow] ow d(1) have "pc (readers w ! ow) = TRANSFER L"
      by (simp add: reader_ok_def)
    with step_u_enabled(3) [OF ow, where p = L and b = b] L ow
    have "\<exists>j < length (readers w). \<exists>p.
              (pc (readers w ! j) = TRANSFER p \<or> pc (readers w ! j) = FINISH p)
              \<and> (\<exists>m. step_u b w (READER j m) \<noteq> None)"
      by blast
    then show ?thesis by blast
  next
    case (FILLED ow dat)
    with d(6) d(1) have L: "L < length (cache (shared w))" and ow: "ow < length (readers w)"
      by (simp_all add: head_ok_def)
    from FILLED d(7) [of ow] ow d(1) have "pc (readers w ! ow) = FINISH L"
      by (simp add: reader_ok_def)
    with step_u_enabled(4) [OF ow, where p = L and b = b] L ow
    have "\<exists>j < length (readers w). \<exists>p.
              (pc (readers w ! j) = TRANSFER p \<or> pc (readers w ! j) = FINISH p)
              \<and> (\<exists>m. step_u b w (READER j m) \<noteq> None)"
      by blast
    then show ?thesis by blast
  next
    case (VALID dat)
    with d(6) have L: "L < length (cache (shared w))"
      and rdy: "state (block_at (cache (shared w)) L) = BLOCK_READY"
      by (simp_all add: head_ok_def)
    from VALID ok consider "pc (readers w ! i) = START" | "pc (readers w ! i) = HAVE L"
      | "pc (readers w ! i) = WAIT L" | "pc (readers w ! i) = COUNT"
      | "pc (readers w ! i) = RETURNED"
      by (auto simp: reader_ok_def before_copy_def finished_def)
    then show ?thesis
      using en(1) en(2) [where p = L] en(5) [where p = L] en(6) L rdy by cases blast+
  qed
qed

lemma reader_ok_finished: "reader_ok L bufs ph i r \<Longrightarrow> finished r \<Longrightarrow> \<exists>dat. ph = VALID dat"
  by (cases ph) (auto simp: reader_ok_def finished_def before_copy_def split: if_splits)

lemma reader_ok_copied:
  "reader_ok L bufs (VALID dat) i r \<Longrightarrow> finished r \<Longrightarrow>
   buffer r = memcpy (bufs ! i) dat BLOCK_SIZE"
  by (auto simp: reader_ok_def finished_def before_copy_def)

lemma served_u:
  assumes none: "find_blocknum (cache bc) b = None"
    and run: "run_actions (step_u b) (start_world bc bufs) acts = Some w"
  shows "served (step_u b) b bc bufs acts w"
proof -
  let ?k = "reads_of b (disk bc)"
  from inv_u_run [OF inv_u_start [OF none] run]
  obtain ph where inv: "inv_u b (length (cache bc)) ?k (disk bc) bufs ph w" ..
  note d = inv_uD [OF inv]
  have work: "length (filter is_reader_action acts) + work_left w \<le> 6 * length bufs"
    using run_actions_work [of "step_u b", OF step_u_work run] by (simp add: work_left_start)
  have nofin: "\<forall>i < length bufs. \<not> finished (readers w ! i)" if "\<And>dat. ph \<noteq> VALID dat"
    using that d(7) reader_ok_finished by blast
  have rd: "reads_of b (disk (shared w)) \<le> ?k + 1"
    using d(6) by (cases ph) (simp_all add: head_ok_def)
  have z: "\<exists>z. snd (disk_read (disk bc) b []) = snd (disk_read (disk bc) b z)"
    by blast
  show ?thesis
  proof (cases "\<exists>dat. ph = VALID dat")
    case False
    with nofin have "\<forall>i < length bufs. \<not> finished (readers w ! i)" by blast
    with d(1) rd inv_u_live [OF inv] work z show ?thesis
      unfolding served_def by blast
  next
    case True
    then obtain dat where ph: "ph = VALID dat" ..
    with d(6) have "reads_of b (disk (shared w)) = ?k + 1"
      and "\<exists>z. dat = snd (disk_read (disk bc) b z)"
      by (simp_all add: head_ok_def)
    moreover from ph d(7) have "\<forall>i < length bufs. finished (readers w ! i)
        \<longrightarrow> buffer (readers w ! i) = memcpy (bufs ! i) dat BLOCK_SIZE"
      using reader_ok_copied by blast
    ultimately show ?thesis
      using d(1) inv_u_live [OF inv] work unfolding served_def by auto
  qed
qed

subsection \<open>One reader by itself\<close>

text \<open>
  The calls of the earlier sections are among the interleavings: a read that is done
  when run by itself is the interleaving in which one reader takes all its steps.
\<close>

lemma pointer_to_index:
  "i < length bs \<Longrightarrow> pointer_to bs i < length bs \<and> block_at bs (pointer_to bs i) = bs ! i
     \<and> set_block_at bs (pointer_to bs i) blk = bs[i := blk]"
  by (simp add: pointer_to_def block_at_def set_block_at_def Suc_diff_Suc)

lemma head_pointer:
  "block_at (blk # bs) (length bs) = blk \<and> set_block_at (blk # bs) (length bs) blk' = blk' # bs"
  by (simp add: block_at_def set_block_at_def)

lemma reader_alone_x:
  "bcache_read_x m bc b buf = (DONE, bc', buf') \<Longrightarrow>
   run_actions (step_x b) (start_world bc [buf]) (replicate 3 (READER 0 m))
     = Some \<lparr>shared = bc', readers = [\<lparr>pc = RETURNED, buffer = buf'\<rparr>], sched = None\<rparr>
   \<or> run_actions (step_x b) (start_world bc [buf]) (replicate 4 (READER 0 m))
     = Some \<lparr>shared = bc', readers = [\<lparr>pc = RETURNED, buffer = buf'\<rparr>], sched = None\<rparr>"
proof (cases "find_block (cache bc) b")
  case None
  assume "bcache_read_x m bc b buf = (DONE, bc', buf')"
  with None show ?thesis
    by (cases m)
       (auto simp: bcache_read_x_def read_block_x_def start_world_def reader_step_x_def
          copy_out_def head_pointer Let_def split_beta numeral_eq_Suc)
next
  case (Some i)
  assume r: "bcache_read_x m bc b buf = (DONE, bc', buf')"
  from find_block_Some [OF Some] have "i < length (cache bc)" by simp
  note p = pointer_to_index [OF this]
  from r Some p show ?thesis
    by (auto simp: bcache_read_x_def read_block_x_def start_world_def reader_step_x_def
          copy_out_def Let_def split_beta numeral_eq_Suc split: if_splits)
qed

lemma reader_alone_u:
  "bcache_read_u m bc b buf = (DONE, bc', buf') \<Longrightarrow>
   run_actions (step_u b) (start_world bc [buf]) (replicate 3 (READER 0 m))
     = Some \<lparr>shared = bc', readers = [\<lparr>pc = RETURNED, buffer = buf'\<rparr>], sched = None\<rparr>
   \<or> run_actions (step_u b) (start_world bc [buf]) (replicate 5 (READER 0 m))
     = Some \<lparr>shared = bc', readers = [\<lparr>pc = RETURNED, buffer = buf'\<rparr>], sched = None\<rparr>"
proof (cases "find_blocknum (cache bc) b")
  case None
  assume "bcache_read_u m bc b buf = (DONE, bc', buf')"
  with None show ?thesis
    by (cases m)
       (auto simp: bcache_read_u_def find_or_create_block_def start_world_def reader_step_u_def
          copy_out_def head_pointer pointer_to_def Let_def split_beta numeral_eq_Suc)
next
  case (Some i)
  assume r: "bcache_read_u m bc b buf = (DONE, bc', buf')"
  from find_blocknum_Some [OF Some] have i: "i < length (cache bc)" by simp
  note p = pointer_to_index [OF i]
  have p': "block_at ((cache bc)[i := blk]) (pointer_to (cache bc) i) = blk
      \<and> set_block_at ((cache bc)[i := blk]) (pointer_to (cache bc) i) blk' = (cache bc)[i := blk']" for blk blk'
    using pointer_to_index [of i "(cache bc)[i := blk]"] i by (simp add: pointer_to_def)
  from r Some p p' show ?thesis
    by (auto simp: bcache_read_u_def find_or_create_block_def start_world_def reader_step_u_def
          copy_out_def Let_def split_beta numeral_eq_Suc split: if_splits)
qed

subsection \<open>Three readers in \<^verbatim>\<open>x.c\<close>\<close>

text \<open>
  C8 at a concrete input, in \<^verbatim>\<open>x.c\<close>. Block 1 is not resident in \<open>cache0\<close> and three
  threads read it. Each looks the block up before any of them has linked its new block,
  which the cache lock, never initialised, does not prevent. Each then links a block of
  its own, finds it in \<^verbatim>\<open>BLOCK_READING\<close> and reads it from the disk. All three return
  with the zeros of the disk, but the disk has been asked for block 1 three times and
  three blocks numbered 1 are resident.
\<close>

theorem three_readers_three_device_reads:
  "find_block (cache cache0) 1 = None
   \<and> outcome (run_actions (step_x 1) (start_world cache0 [pattern_A, pattern_B, pattern_A])
        schedule_x)
     = Some ([RETURNED, RETURNED, RETURNED], [zeros, zeros, zeros],
             [DISK_READ 1, DISK_READ 1, DISK_READ 1])
   \<and> reads_of 1 (disk (shared (the (run_actions (step_x 1)
        (start_world cache0 [pattern_A, pattern_B, pattern_A]) schedule_x)))) = 3
   \<and> map blocknum (cache (shared (the (run_actions (step_x 1)
        (start_world cache0 [pattern_A, pattern_B, pattern_A]) schedule_x)))) = [1, 1, 1]"
  by (simp add: outcome_def schedule_x_def start_world_def reader_step_x_def copy_out_def
      block_at_def set_block_at_def pointer_to_def reads_of_def Let_def
      disk_read_def disk_nblocks_def example_defs)

subsection \<open>Any number of readers in the third version\<close>

lemma run_u: "outcome (run_actions (step_u 1) (start_world cache0 [pattern_A, pattern_B, pattern_A]) schedule_u)
       = Some ([RETURNED, RETURNED, RETURNED], [zeros, zeros, zeros], [DISK_READ 1])"
  by (simp add: outcome_def schedule_u_def start_world_def reader_step_u_def scheduler_step_u_def
        find_or_create_block_def copy_out_def block_at_def set_block_at_def pointer_to_def
        disk_read_def disk_nblocks_def example_defs)

text \<open>
  The third version does what C8 says. Let no block numbered \<open>b\<close> be resident, and let
  any number of readers of \<open>b\<close>, one per buffer in \<open>bufs\<close>, and the scheduler take steps
  in any order \<open>acts\<close>. In every state so reached the disk has been asked for block \<open>b\<close>
  at most once, and exactly once as soon as one reader has its payload; all readers that
  have their payload got the same one, the one a disk read of \<open>b\<close> gives; no reader is
  stuck for good, and the readers take at most six steps each, so every reader that
  keeps being scheduled returns.
\<close>

theorem third_version_readers_served:
  "find_blocknum (cache bc) b = None
   \<and> run_actions (step_u b) (start_world bc bufs) acts = Some w
   \<longrightarrow> served (step_u b) b bc bufs acts w"
  using served_u [of bc b bufs acts w]
  by blast

text \<open>
  On the interleaving of three readers of block 1 on the empty cache \<open>cache0\<close>: all
  three return with the zeros of the disk in their buffers, and the disk saw a single
  read of block 1.
\<close>

theorem third_version_readers_served_witness:
  "find_blocknum (cache cache0) 1 = None
   \<and> outcome (run_actions (step_u 1) (start_world cache0 [pattern_A, pattern_B, pattern_A])
        schedule_u)
     = Some ([RETURNED, RETURNED, RETURNED], [zeros, zeros, zeros], [DISK_READ 1])
   \<and> served (step_u 1) 1 cache0 [pattern_A, pattern_B, pattern_A] schedule_u
        (the (run_actions (step_u 1) (start_world cache0 [pattern_A, pattern_B, pattern_A])
           schedule_u))"
proof -
  let ?bufs = "[pattern_A, pattern_B, pattern_A]"
  let ?ru = "run_actions (step_u 1) (start_world cache0 ?bufs) schedule_u"
  have nu: "find_blocknum (cache cache0) 1 = None"
    by (simp add: cache0_def)
  from run_u have "?ru \<noteq> None"
    by (auto simp: outcome_def)
  then have ru: "?ru = Some (the ?ru)"
    by simp
  from nu ru have su: "served (step_u 1) 1 cache0 ?bufs schedule_u (the ?ru)"
    using third_version_readers_served [of cache0 1 ?bufs schedule_u "the ?ru"]
    by blast
  from nu run_u su show ?thesis
    by simp
qed

end
